theory Spec2Isabelle
  imports Main "HOL-Library.Multiset"
begin

section \<open>Data model of \<open>src/cli.ts\<close>\<close>

text \<open>
  The module keeps four variables: \<open>applicationState\<close>, \<open>oauthState\<close>, \<open>config\<close> and
  \<open>subscriptions\<close>. The types below follow the TypeScript declarations. A JavaScript value
  that may be \<open>undefined\<close> is an \<open>option\<close>, with \<open>None\<close> for \<open>undefined\<close>.
\<close>

datatype ApplicationState = login_source | login_destination

record Config =
  clientId :: string
  clientSecret :: string
  port :: nat
  redirectUrl :: string
  scope :: string
  authorizationUrl :: string
  tokenUrl :: string

record SubscriptionSnippetResource =
  kind :: string
  channelId :: string

record SubscriptionSnippet =
  title :: string
  resourceId :: SubscriptionSnippetResource

record Subscription =
  id_sub :: string
  snippet :: SubscriptionSnippet

text \<open>
  The parsed body of a page of the list endpoint. The code tests \<open>nextPageToken\<close> for
  truthiness and reads \<open>items\<close> through \<open>?.\<close>, so both fields may be missing.
\<close>

record SubscriptionsResponse =
  nextPageToken :: "string option"
  items :: "Subscription list option"

text \<open>The parsed body of the token endpoint: \<open>body.access_token\<close> may be missing.\<close>

record TokenBody =
  access_token :: "string option"

text \<open>
  What \<open>fetch\<close> gives back: the promise is rejected (a network failure), or it resolves
  to a response with its \<open>ok\<close> flag, its status and its body. \<open>json\<close> is what
  \<open>await response.json()\<close> gives: the parsed body, or \<open>None\<close> when the body is not JSON
  and the \<open>await\<close> throws. The fields the code reads as optional are optional in the
  parsed bodies.
\<close>

record 'b Response =
  ok :: bool
  status :: nat
  json :: "'b option"

datatype 'b fetched = Rejected | Resolved "'b Response"

datatype js_error = TypeError | FetchError | InvalidJson

datatype 'a outcome = Returned 'a | Threw js_error

text \<open>Everything the program does to the outside world, in the order it does it.\<close>

datatype effect =
    ConsoleLog string
  | LogLoadFailure SubscriptionsResponse nat
  | LogLoginFailure TokenBody nat
  | LogNoAccessToken TokenBody
  | HttpGet string string
  | HttpPostToken string
  | HttpPostSubscription string string SubscriptionSnippetResource
  | Prompt string
  | OpenBrowser string

text \<open>JavaScript truthiness of a \<open>string | undefined\<close>: the empty string is falsy.\<close>

definition truthy :: "string option \<Rightarrow> bool" where
  "truthy s = (case s of None \<Rightarrow> False | Some t \<Rightarrow> t \<noteq> [])"

text \<open>A number inside a template literal is printed in decimal.\<close>

fun string_of_nat :: "nat \<Rightarrow> string" where
  "string_of_nat n =
     (if n < 10 then [''0123456789'' ! n]
      else string_of_nat (n div 10) @ [''0123456789'' ! (n mod 10)])"

section \<open>Subscription Enumerator: \<open>getAllSubscriptions\<close>\<close>

text \<open>
  \<open>Array.prototype.concat\<close> appends the elements of an array argument, and appends any
  other argument as one element. \<open>body.items?.map(...)\<close> is \<open>undefined\<close> when \<open>items\<close> is
  missing, so the argument is an optional array.
\<close>

definition concat_js :: "'a option list \<Rightarrow> 'a option list option \<Rightarrow> 'a option list" where
  "concat_js xs arg = (case arg of None \<Rightarrow> xs @ [None] | Some ys \<Rightarrow> xs @ ys)"

definition subscriptions_url :: "string option \<Rightarrow> string" where
  "subscriptions_url nextPage =
     ''https://youtube.googleapis.com/youtube/v3/subscriptions?part=id,snippet&maxResults=50&mine=true''
       @ (if truthy nextPage then ''&pageToken='' @ the nextPage else '''')"

text \<open>
  The \<open>do ... while (nextPage)\<close> loop. \<open>net n\<close> is what the \<open>n\<close>-th page request of this
  call gets back, \<open>nextPage\<close> and \<open>subs\<close> are the loop variables, \<open>tr\<close> collects the
  effects. On a response that is not \<open>ok\<close> the arguments of \<open>console.log\<close>, among them
  \<open>await response.json()\<close>, are evaluated before \<open>return subscriptions\<close>. The loop has
  no bound of its own, so the function is partial: \<open>None\<close> means that the call never
  returns.
\<close>

partial_function (option) fetch_pages ::
  "string \<Rightarrow> (nat \<Rightarrow> SubscriptionsResponse fetched) \<Rightarrow> nat \<Rightarrow> string option
     \<Rightarrow> SubscriptionSnippet option list \<Rightarrow> effect list
     \<Rightarrow> (SubscriptionSnippet option list outcome \<times> effect list) option" where
  "fetch_pages accessToken net n nextPage subs tr =
     (let tr1 = tr @ [HttpGet (subscriptions_url nextPage) accessToken]
      in case net n of
           Rejected \<Rightarrow> Some (Threw FetchError, tr1)
         | Resolved response \<Rightarrow>
             if \<not> ok response
             then (case json response of
                     None \<Rightarrow> Some (Threw InvalidJson, tr1)
                   | Some diagnostic \<Rightarrow>
                       Some (Returned subs, tr1 @ [LogLoadFailure diagnostic (status response)]))
             else
               (case json response of
                  None \<Rightarrow> Some (Threw InvalidJson, tr1)
                | Some body \<Rightarrow>
                    let nextPage' = nextPageToken body;
                        subs' = concat_js subs
                                  (map_option (map (\<lambda>item. Some (snippet item))) (items body))
                    in if truthy nextPage'
                       then fetch_pages accessToken net (Suc n) nextPage' subs' tr1
                       else Some (Returned subs', tr1)))"

definition getAllSubscriptions ::
  "string \<Rightarrow> (nat \<Rightarrow> SubscriptionsResponse fetched)
     \<Rightarrow> (SubscriptionSnippet option list outcome \<times> effect list) option" where
  "getAllSubscriptions accessToken net = fetch_pages accessToken net 0 None [] []"

text \<open>
  Vocabulary for the theorems about the loop: what one page contributes to the result,
  a stream \<open>net\<close> that answers the requests from the \<open>n\<close>-th on with the pages \<open>ps\<close>,
  successfully, a response that ends the loop, and the page requests for a list of
  page tokens.
\<close>

definition page_snippets :: "SubscriptionsResponse \<Rightarrow> SubscriptionSnippet option list" where
  "page_snippets p = concat_js [] (map_option (map (\<lambda>item. Some (snippet item))) (items p))"

definition serves ::
  "(nat \<Rightarrow> SubscriptionsResponse fetched) \<Rightarrow> nat \<Rightarrow> SubscriptionsResponse list \<Rightarrow> bool" where
  "serves net n ps =
     list_all (\<lambda>i. case net (n + i) of Rejected \<Rightarrow> False
                    | Resolved r \<Rightarrow> ok r \<and> json r = Some (ps ! i)) [0..<length ps]"

definition ends_loop :: "SubscriptionsResponse fetched \<Rightarrow> bool" where
  "ends_loop f = (case f of Rejected \<Rightarrow> True
                  | Resolved r \<Rightarrow>
                      \<not> ok r \<or> (case json r of None \<Rightarrow> True
                                  | Some body \<Rightarrow> \<not> truthy (nextPageToken body)))"

definition page :: "string option \<Rightarrow> Subscription list \<Rightarrow> SubscriptionsResponse" where
  "page t its = \<lparr>nextPageToken = t, items = Some its\<rparr>"

definition page_requests :: "string \<Rightarrow> string option list \<Rightarrow> effect list" where
  "page_requests accessToken toks = map (\<lambda>t. HttpGet (subscriptions_url t) accessToken) toks"

definition is_page_request :: "effect \<Rightarrow> bool" where
  "is_page_request e = (case e of HttpGet u a \<Rightarrow> True | _ \<Rightarrow> False)"

section \<open>The module's variables and the process\<close>

text \<open>
  \<open>exited\<close> is the status \<open>process.exit\<close> was called with, \<open>unhandled\<close> the rejections of
  promises nobody awaits (the handler calls \<open>loginSource\<close> and \<open>loginDestination\<close> without
  \<open>await\<close>), and \<open>trace\<close> the effects so far.
\<close>

record app =
  config :: Config
  applicationState :: ApplicationState
  oauthState :: string
  subscriptions :: "SubscriptionSnippet option list"
  exited :: "nat option"
  unhandled :: "js_error list"
  trace :: "effect list"

text \<open>
  What the outside world answers while one callback is handled: the token endpoint, the
  pages of the list endpoint, the user at the destination prompt, the next value of
  \<open>uuid()\<close>, the creation requests (by index of the subscription) and the order in which
  their responses arrive.
\<close>

record env =
  token_response :: "TokenBody fetched"
  page_responses :: "nat \<Rightarrow> SubscriptionsResponse fetched"
  confirm_destination :: bool
  fresh_uuid :: string
  create_responses :: "nat \<Rightarrow> unit fetched"
  completion_order :: "nat list"

definition log_to :: "effect list \<Rightarrow> app \<Rightarrow> app" where
  "log_to es s = s\<lparr>trace := trace s @ es\<rparr>"

section \<open>Authorization redirect: \<open>startLogin\<close> and the prompts\<close>

definition authorization_link :: "Config \<Rightarrow> string \<Rightarrow> string" where
  "authorization_link cfg st =
     authorizationUrl cfg @ ''?client_id='' @ clientId cfg @ ''&redirect_uri='' @ redirectUrl cfg
       @ ''&response_type=code&scope='' @ scope cfg @ ''&state='' @ st"

definition startLogin :: "string \<Rightarrow> app \<Rightarrow> app" where
  "startLogin fresh s =
     log_to [OpenBrowser (authorization_link (config s) fresh)] (s\<lparr>oauthState := fresh\<rparr>)"

definition destination_prompt :: "nat \<Rightarrow> string" where
  "destination_prompt n =
     ''Press enter to login to your destination YouTube account which will automatically subscribe to ''
       @ string_of_nat n @ '' channels.''"

definition promptDestinationLogin :: "bool \<Rightarrow> string \<Rightarrow> app \<Rightarrow> app" where
  "promptDestinationLogin login fresh s =
     (let s1 = log_to [Prompt (destination_prompt (length (subscriptions s)))] s
      in if \<not> login then s1\<lparr>exited := Some 0\<rparr>
         else startLogin fresh (s1\<lparr>applicationState := login_destination\<rparr>))"

definition source_prompt :: string where
  "source_prompt =
     ''Press enter to login to your source YouTube account from where subscriptions will be taken from''"

definition promptSourceLogin :: "bool \<Rightarrow> app \<Rightarrow> app" where
  "promptSourceLogin login s =
     (let s1 = log_to [Prompt source_prompt] s
      in if \<not> login then s1\<lparr>exited := Some 0\<rparr> else s1)"

text \<open>
  The module initialisers and \<open>start\<close>. The configuration comes from a file or from
  prompts; here it is given. \<open>uuid0\<close> is the value of the initialiser of \<open>oauthState\<close>.
\<close>

definition initial :: "Config \<Rightarrow> string \<Rightarrow> app" where
  "initial cfg uuid0 =
     \<lparr>config = cfg, applicationState = login_source, oauthState = uuid0, subscriptions = [],
      exited = None, unhandled = [], trace = []\<rparr>"

definition start :: "Config \<Rightarrow> string \<Rightarrow> bool \<Rightarrow> string \<Rightarrow> app" where
  "start cfg uuid0 login fresh =
     (let s1 = promptSourceLogin login (initial cfg uuid0)
      in if exited s1 \<noteq> None then s1 else startLogin fresh s1)"

section \<open>Source phase: \<open>loginSource\<close>\<close>

definition no_subscriptions_message :: string where
  "no_subscriptions_message =
     ''No subscriptions found! Please try again with an account that is subscribed to other channels.''"

text \<open>The first two lines \<open>loginSource\<close> logs, and the line with the count.\<close>

definition source_banner :: "effect list" where
  "source_banner =
     [ConsoleLog ''Successfully logged in to source account.'',
      ConsoleLog ''Collecting subscribed channels ...'']"

definition found_message :: "nat \<Rightarrow> string" where
  "found_message n = ''Found '' @ string_of_nat n @ '' subscriptions.''"

text \<open>
  When the enumeration never returns, \<open>loginSource\<close> stays suspended at its \<open>await\<close>:
  the state is the one after the two log lines.
\<close>

definition loginSource :: "string \<Rightarrow> env \<Rightarrow> app \<Rightarrow> app" where
  "loginSource accessToken e s =
     (let s1 = log_to source_banner s
      in case getAllSubscriptions accessToken (page_responses e) of
           None \<Rightarrow> s1
         | Some (Threw err, tr) \<Rightarrow> (log_to tr s1)\<lparr>unhandled := unhandled s1 @ [err]\<rparr>
         | Some (Returned subs, tr) \<Rightarrow>
             let s2 = (log_to tr s1)\<lparr>subscriptions := subs\<rparr>
             in if length subs = 0
                then (log_to [ConsoleLog no_subscriptions_message] s2)\<lparr>exited := Some 1\<rparr>
                else promptDestinationLogin (confirm_destination e) (fresh_uuid e)
                       (log_to [ConsoleLog (found_message (length subs))] s2))"

section \<open>Subscription Replicator: \<open>subscribeChannel\<close> and \<open>loginDestination\<close>\<close>

definition create_url :: string where
  "create_url = ''https://youtube.googleapis.com/youtube/v3/subscriptions?part=snippet''"

text \<open>
  \<open>subscribeChannel\<close> up to its \<open>await\<close>: it reads \<open>subscription.resourceId\<close>, which throws
  a TypeError on \<open>undefined\<close>, and sends the request. After the \<open>await\<close> it returns
  \<open>response.ok\<close>, and the caller logs one of two lines with the title.
\<close>

definition subscribeChannel :: "string \<Rightarrow> SubscriptionSnippet option \<Rightarrow> effect outcome" where
  "subscribeChannel accessToken subscription =
     (case subscription of
        None \<Rightarrow> Threw TypeError
      | Some sub \<Rightarrow> Returned (HttpPostSubscription create_url accessToken (resourceId sub)))"

definition notice :: "bool \<Rightarrow> SubscriptionSnippet \<Rightarrow> effect" where
  "notice success sub =
     ConsoleLog ((if success then ''Subscribed to '' else ''Failed to subscribe to '') @ title sub)"

text \<open>The value \<open>subscribeChannel\<close> returns for a response: \<open>response.ok\<close>.\<close>

definition succeeded :: "unit fetched \<Rightarrow> bool" where
  "succeeded f = (case f of Rejected \<Rightarrow> False | Resolved response \<Rightarrow> ok response)"

text \<open>
  \<open>subscriptions.map(async ...)\<close> runs every callback up to its first \<open>await\<close>, in the
  order of the array: the requests that were sent, the tasks now waiting for a response
  (with the index of their subscription), and the errors of the callbacks that threw.
\<close>

definition sent_requests :: "string \<Rightarrow> SubscriptionSnippet option list \<Rightarrow> effect list" where
  "sent_requests accessToken subs =
     concat (map (\<lambda>sub. case subscribeChannel accessToken sub of
                           Returned rq \<Rightarrow> [rq] | Threw err \<Rightarrow> []) subs)"

definition thrown :: "string \<Rightarrow> SubscriptionSnippet option list \<Rightarrow> js_error list" where
  "thrown accessToken subs =
     concat (map (\<lambda>sub. case subscribeChannel accessToken sub of
                           Returned rq \<Rightarrow> [] | Threw err \<Rightarrow> [err]) subs)"

definition waiting :: "SubscriptionSnippet option list \<Rightarrow> (nat \<times> SubscriptionSnippet) list" where
  "waiting subs =
     concat (map (\<lambda>(i, sub). case sub of None \<Rightarrow> [] | Some x \<Rightarrow> [(i, x)])
                 (zip [0..<length subs] subs))"

text \<open>
  \<open>await Promise.all(...)\<close>: the responses arrive in the order \<open>sched\<close> (indices of
  subscriptions; an index that is not waiting is skipped). A response makes its task log
  its line; a rejected \<open>fetch\<close> rejects the task, and \<open>Promise.all\<close> rejects with the first
  rejection. It is fulfilled when no task is waiting any more; when the responses run out
  before that, it stays pending.
\<close>

datatype settled = AllFulfilled | StillWaiting | OneRejected js_error

fun await_all ::
  "(nat \<Rightarrow> unit fetched) \<Rightarrow> (nat \<times> SubscriptionSnippet) list \<Rightarrow> nat list \<Rightarrow> effect list
     \<Rightarrow> settled \<times> effect list" where
  "await_all net [] sched tr = (AllFulfilled, tr)"
| "await_all net (p # ps) [] tr = (StillWaiting, tr)"
| "await_all net (p # ps) (i # sched) tr =
     (case map_of (p # ps) i of
        None \<Rightarrow> await_all net (p # ps) sched tr
      | Some sub \<Rightarrow>
          (case net i of
             Rejected \<Rightarrow> (OneRejected FetchError, tr)
           | Resolved response \<Rightarrow>
               await_all net (filter (\<lambda>q. fst q \<noteq> i) (p # ps)) sched
                 (tr @ [notice (ok response) sub])))"

text \<open>The first two lines \<open>loginDestination\<close> logs, and its last one.\<close>

definition destination_banner :: "nat \<Rightarrow> effect list" where
  "destination_banner n =
     [ConsoleLog ''Successfully logged in to destination account.'',
      ConsoleLog (''Subscribing to '' @ string_of_nat n @ '' channels ...'')]"

definition done_line :: effect where
  "done_line = ConsoleLog ''Done!''"

text \<open>
  \<open>loginDestination\<close>. A callback that threw before its \<open>await\<close> has already rejected
  its promise when \<open>Promise.all\<close> is awaited, so the call is rejected before any response
  arrives. The handler does not await the call, so its rejection is handled by nobody
  and ends the process (see \<open>alive\<close> below): the lines the remaining tasks would have
  logged are not part of the trace.
\<close>

definition loginDestination :: "string \<Rightarrow> env \<Rightarrow> app \<Rightarrow> app" where
  "loginDestination accessToken e s =
     (let subs = subscriptions s;
          s1 = log_to (destination_banner (length subs) @ sent_requests accessToken subs) s
      in case thrown accessToken subs of
           err # errs \<Rightarrow> s1\<lparr>unhandled := unhandled s1 @ [err]\<rparr>
         | [] \<Rightarrow>
             (case await_all (create_responses e) (waiting subs) (completion_order e) (trace s1) of
                (AllFulfilled, tr) \<Rightarrow> s1\<lparr>trace := tr @ [done_line], exited := Some 0\<rparr>
              | (StillWaiting, tr) \<Rightarrow> s1\<lparr>trace := tr\<rparr>
              | (OneRejected err, tr) \<Rightarrow> s1\<lparr>trace := tr, unhandled := unhandled s1 @ [err]\<rparr>))"

section \<open>OAuth Exchanger: \<open>exchangeForAccessToken\<close>\<close>

definition token_link :: "Config \<Rightarrow> string \<Rightarrow> string" where
  "token_link cfg c =
     tokenUrl cfg @ ''?client_id='' @ clientId cfg @ ''&client_secret='' @ clientSecret cfg
       @ ''&redirect_uri='' @ redirectUrl cfg @ ''&grant_type=authorization_code&code='' @ c"

definition exchangeForAccessToken ::
  "Config \<Rightarrow> string \<Rightarrow> TokenBody fetched \<Rightarrow> string option outcome \<times> effect list" where
  "exchangeForAccessToken cfg c fr =
     (let tr = [HttpPostToken (token_link cfg c)]
      in case fr of
           Rejected \<Rightarrow> (Threw FetchError, tr)
         | Resolved response \<Rightarrow>
             if \<not> ok response
             then (case json response of
                     None \<Rightarrow> (Threw InvalidJson, tr)
                   | Some diagnostic \<Rightarrow>
                       (Returned None, tr @ [LogLoginFailure diagnostic (status response)]))
             else
               (case json response of
                  None \<Rightarrow> (Threw InvalidJson, tr)
                | Some body \<Rightarrow>
                    if \<not> truthy (access_token body)
                    then (Returned None, tr @ [LogNoAccessToken body])
                    else (Returned (access_token body), tr)))"

section \<open>HTTP Callback Receiver: the handler of \<open>GET /callback\<close>\<close>

text \<open>
  A value of \<open>ctx.query\<close>: the parameter is missing, given once, or given several times
  (then it is an array of strings).
\<close>

datatype query_value = Missing | Single string | Repeated "string list"

record query =
  code :: query_value
  state :: query_value

text \<open>What the browser gets: \<open>ctx.body\<close>, or the framework's answer to a handler that threw.\<close>

datatype reply = Body string | InternalServerError

definition failed_login :: string where
  "failed_login = ''Failed to login with YouTube. Please try again.''"

definition invalid_state :: string where
  "invalid_state = ''Failed to login with YouTube. Invalid state.''"

definition no_access_token :: string where
  "no_access_token = ''Failed to login with YouTube. No access token received.''"

definition check_terminal :: string where
  "check_terminal =
     ''Please check the terminal for the next steps. You can close this window now.''"

text \<open>\<open>!code || typeof code !== "string"\<close>: only a single, non-empty string passes.\<close>

definition code_rejected :: "query_value \<Rightarrow> bool" where
  "code_rejected c = (case c of Single x \<Rightarrow> x = [] | _ \<Rightarrow> True)"

text \<open>
  \<open>!responseState || responseState !== oauthState\<close>: an array is truthy and is never
  strictly equal to a string.
\<close>

definition state_rejected :: "query_value \<Rightarrow> string \<Rightarrow> bool" where
  "state_rejected st tok =
     (case st of Missing \<Rightarrow> True | Single x \<Rightarrow> x = [] \<or> x \<noteq> tok | Repeated xs \<Rightarrow> True)"

text \<open>
  The handler. \<open>loginSource\<close> and \<open>loginDestination\<close> are called without \<open>await\<close>, and each
  yields at its first \<open>await\<close> before it writes any variable, so both tests of
  \<open>applicationState\<close> read the value \<open>phase\<close> that the variable has after the exchange.
  This is the handler when nothing else happens between its own steps: everything the
  call starts is carried out here.
\<close>

definition callback :: "query \<Rightarrow> env \<Rightarrow> app \<Rightarrow> reply \<times> app" where
  "callback q e s =
     (if code_rejected (code q) then (Body failed_login, s)
      else if state_rejected (state q) (oauthState s) then (Body invalid_state, s)
      else
        case code q of
          Single c \<Rightarrow>
            (case exchangeForAccessToken (config s) c (token_response e) of
               (Threw err, tr) \<Rightarrow> (InternalServerError, log_to tr s)
             | (Returned None, tr) \<Rightarrow> (Body no_access_token, log_to tr s)
             | (Returned (Some accessToken), tr) \<Rightarrow>
                 let s1 = log_to tr s;
                     phase = applicationState s1;
                     s2 = (if phase = login_source then loginSource accessToken e s1 else s1);
                     s3 = (if phase = login_destination then loginDestination accessToken e s2
                           else s2)
                 in (Body check_terminal, s3))
        | _ \<Rightarrow> (Body failed_login, s))"

text \<open>
  The process is over once \<open>process.exit\<close> was called, and also once a promise that
  nobody awaits was rejected: the runtime ends the process on an unhandled rejection
  (the default of Node.js since version 15).
\<close>

definition alive :: "app \<Rightarrow> bool" where
  "alive s = (exited s = None \<and> unhandled s = [])"

text \<open>
  Callbacks that arrive one after the other, each with what the outside world answers to
  it, and each handled to its end before the next one arrives. Callbacks whose handling
  overlaps in time are the subject of the next section.
\<close>

fun run :: "app \<Rightarrow> (query \<times> env) list \<Rightarrow> app" where
  "run s [] = s"
| "run s ((q, e) # evs) = run (if alive s then snd (callback q e s) else s) evs"

section \<open>The process with its suspended calls\<close>

text \<open>
  \<open>callback\<close> above follows one callback to the end of everything it starts. In the
  running program each \<open>await\<close> gives way to whatever comes next: another callback, or
  the continuation of a call that was suspended earlier. Here every such piece is one
  event. A suspended call is one of:
  the handler at \<open>await exchangeForAccessToken(code)\<close>;
  \<open>loginSource\<close> at \<open>await getAllSubscriptions(accessToken)\<close>;
  \<open>loginSource\<close> at the destination prompt;
  \<open>loginDestination\<close> at \<open>await Promise.all(...)\<close>, with the tasks that still wait for
  their response.
  A call that has come to its end leaves \<open>Finished\<close> at its place, so that the position of
  a call in the list never changes.
\<close>

datatype task =
    Exchanging string
  | Collecting string
  | Confirming
  | Subscribing "(nat \<times> SubscriptionSnippet) list"
  | Finished

record process =
  vars :: app
  suspended :: "task list"

text \<open>
  The events: a request for \<open>/callback\<close> arrives; the token endpoint answers the suspended
  handler at position \<open>k\<close>; the enumeration of the call at position \<open>k\<close> comes to its end,
  after the list endpoint has answered its page requests with the given stream; the user
  answers the prompt of the call at position \<open>k\<close> (with the value the next \<open>uuid()\<close> will
  have); the creation request for subscription \<open>i\<close> of the call at position \<open>k\<close> is
  answered.
\<close>

datatype event =
    Request query
  | TokenAnswer nat "TokenBody fetched"
  | EnumerationEnds nat "nat \<Rightarrow> SubscriptionsResponse fetched"
  | PromptAnswer nat bool string
  | CreateAnswer nat nat "unit fetched"

definition boot :: "app \<Rightarrow> process" where
  "boot s = \<lparr>vars = s, suspended = []\<rparr>"

definition task_at :: "process \<Rightarrow> nat \<Rightarrow> task" where
  "task_at p k = (if k < length (suspended p) then suspended p ! k else Finished)"

definition collecting :: "process \<Rightarrow> bool" where
  "collecting p = list_ex (\<lambda>t. case t of Collecting accessToken \<Rightarrow> True | _ \<Rightarrow> False) (suspended p)"

definition confirming :: "process \<Rightarrow> bool" where
  "confirming p = list_ex (\<lambda>t. case t of Confirming \<Rightarrow> True | _ \<Rightarrow> False) (suspended p)"

text \<open>
  A request arrives: the two guards of the handler, then \<open>exchangeForAccessToken\<close> up to
  its \<open>await fetch(...)\<close>, which sends the request to the token endpoint.
\<close>

definition on_request :: "query \<Rightarrow> process \<Rightarrow> reply option \<times> process" where
  "on_request q p =
     (let s = vars p
      in if code_rejected (code q) then (Some (Body failed_login), p)
         else if state_rejected (state q) (oauthState s) then (Some (Body invalid_state), p)
         else
           case code q of
             Single c \<Rightarrow>
               (None, p\<lparr>vars := log_to [HttpPostToken (token_link (config s) c)] s,
                        suspended := suspended p @ [Exchanging c]\<rparr>)
           | _ \<Rightarrow> (Some (Body failed_login), p))"

text \<open>\<open>exchangeForAccessToken\<close> after its \<open>await fetch(...)\<close>.\<close>

definition received_token :: "TokenBody fetched \<Rightarrow> string option outcome \<times> effect list" where
  "received_token fr =
     (case fr of
        Rejected \<Rightarrow> (Threw FetchError, [])
      | Resolved response \<Rightarrow>
          if \<not> ok response
          then (case json response of
                  None \<Rightarrow> (Threw InvalidJson, [])
                | Some diagnostic \<Rightarrow>
                    (Returned None, [LogLoginFailure diagnostic (status response)]))
          else
            (case json response of
               None \<Rightarrow> (Threw InvalidJson, [])
             | Some body \<Rightarrow>
                 if \<not> truthy (access_token body)
                 then (Returned None, [LogNoAccessToken body])
                 else (Returned (access_token body), [])))"

text \<open>
  \<open>loginDestination\<close> up to its \<open>await Promise.all(...)\<close>. A callback that threw has
  rejected the call by then; with no subscription at all, \<open>Promise.all([])\<close> is fulfilled at
  once and the call runs to its end; otherwise the call is suspended.
\<close>

definition begin_replication :: "string \<Rightarrow> app \<Rightarrow> app \<times> task" where
  "begin_replication accessToken s =
     (let subs = subscriptions s;
          s1 = log_to (destination_banner (length subs) @ sent_requests accessToken subs) s
      in case thrown accessToken subs of
           err # errs \<Rightarrow> (s1\<lparr>unhandled := unhandled s1 @ [err]\<rparr>, Finished)
         | [] \<Rightarrow>
             if waiting subs = []
             then (s1\<lparr>trace := trace s1 @ [done_line], exited := Some 0\<rparr>, Finished)
             else (s1, Subscribing (waiting subs)))"

text \<open>
  The token endpoint answers: the rest of \<open>exchangeForAccessToken\<close> and of the handler.
  The response and its body (\<open>await response.json()\<close>) are one event: no variable of the
  module is read or written between the two.
  The handler reads \<open>applicationState\<close> now, and starts \<open>loginSource\<close> (its two log lines,
  then the enumeration) or \<open>loginDestination\<close> as a call of its own; the handler itself
  is finished. The page requests of an enumeration touch no variable of the module;
  they are recorded in the trace when the enumeration ends.
\<close>

definition on_token :: "nat \<Rightarrow> TokenBody fetched \<Rightarrow> process \<Rightarrow> reply option \<times> process" where
  "on_token k fr p =
     (let s = vars p; rest = (suspended p)[k := Finished]
      in case received_token fr of
           (Threw err, tr) \<Rightarrow>
             (Some InternalServerError, p\<lparr>vars := log_to tr s, suspended := rest\<rparr>)
         | (Returned None, tr) \<Rightarrow>
             (Some (Body no_access_token), p\<lparr>vars := log_to tr s, suspended := rest\<rparr>)
         | (Returned (Some accessToken), tr) \<Rightarrow>
             let s1 = log_to tr s
             in (Some (Body check_terminal),
                 case applicationState s1 of
                   login_source \<Rightarrow>
                     p\<lparr>vars := log_to source_banner s1,
                       suspended := rest @ [Collecting accessToken]\<rparr>
                 | login_destination \<Rightarrow>
                     (case begin_replication accessToken s1 of
                        (s2, t) \<Rightarrow> p\<lparr>vars := s2, suspended := rest @ [t]\<rparr>)))"

text \<open>
  The enumeration ends: the rest of \<open>loginSource\<close> up to the prompt inside
  \<open>promptDestinationLogin\<close>. An enumeration that never returns never gives this event.
\<close>

definition on_enumeration ::
  "nat \<Rightarrow> string \<Rightarrow> (nat \<Rightarrow> SubscriptionsResponse fetched) \<Rightarrow> process \<Rightarrow> process" where
  "on_enumeration k accessToken net p =
     (let s = vars p
      in case getAllSubscriptions accessToken net of
           None \<Rightarrow> p
         | Some (Threw err, tr) \<Rightarrow>
             p\<lparr>vars := (log_to tr s)\<lparr>unhandled := unhandled s @ [err]\<rparr>,
               suspended := (suspended p)[k := Finished]\<rparr>
         | Some (Returned subs, tr) \<Rightarrow>
             let s2 = (log_to tr s)\<lparr>subscriptions := subs\<rparr>
             in if length subs = 0
                then p\<lparr>vars := (log_to [ConsoleLog no_subscriptions_message] s2)
                                  \<lparr>exited := Some 1\<rparr>,
                       suspended := (suspended p)[k := Finished]\<rparr>
                else p\<lparr>vars := log_to [ConsoleLog (found_message (length subs)),
                                       Prompt (destination_prompt (length subs))] s2,
                       suspended := (suspended p)[k := Confirming]\<rparr>)"

text \<open>The user answers the prompt: the rest of \<open>promptDestinationLogin\<close>.\<close>

definition on_prompt :: "nat \<Rightarrow> bool \<Rightarrow> string \<Rightarrow> process \<Rightarrow> process" where
  "on_prompt k login fresh p =
     (let s = vars p
      in p\<lparr>vars := (if \<not> login then s\<lparr>exited := Some 0\<rparr>
                     else startLogin fresh (s\<lparr>applicationState := login_destination\<rparr>)),
           suspended := (suspended p)[k := Finished]\<rparr>)"

text \<open>
  A creation request is answered: the rest of \<open>subscribeChannel\<close> and of the callback of
  \<open>map\<close>, and, when this was the last task, the rest of \<open>loginDestination\<close>. A rejected
  \<open>fetch\<close> rejects \<open>Promise.all\<close> and with it \<open>loginDestination\<close>.
\<close>

definition on_create ::
  "nat \<Rightarrow> (nat \<times> SubscriptionSnippet) list \<Rightarrow> nat \<Rightarrow> unit fetched \<Rightarrow> process \<Rightarrow> process" where
  "on_create k ps i fr p =
     (let s = vars p
      in case map_of ps i of
           None \<Rightarrow> p
         | Some sub \<Rightarrow>
             (case fr of
                Rejected \<Rightarrow>
                  p\<lparr>vars := s\<lparr>unhandled := unhandled s @ [FetchError]\<rparr>,
                    suspended := (suspended p)[k := Finished]\<rparr>
              | Resolved response \<Rightarrow>
                  let s1 = log_to [notice (ok response) sub] s;
                      ps' = filter (\<lambda>q. fst q \<noteq> i) ps
                  in if ps' = []
                     then p\<lparr>vars := s1\<lparr>trace := trace s1 @ [done_line], exited := Some 0\<rparr>,
                            suspended := (suspended p)[k := Finished]\<rparr>
                     else p\<lparr>vars := s1, suspended := (suspended p)[k := Subscribing ps']\<rparr>))"

text \<open>
  One event. Nothing happens in a process that is over, and an answer for a call that is
  not suspended at that point is no event of the program.
\<close>

definition step :: "event \<Rightarrow> process \<Rightarrow> reply option \<times> process" where
  "step ev p =
     (if \<not> alive (vars p) then (None, p)
      else
        case ev of
          Request q \<Rightarrow> on_request q p
        | TokenAnswer k fr \<Rightarrow>
            (case task_at p k of Exchanging c \<Rightarrow> on_token k fr p | _ \<Rightarrow> (None, p))
        | EnumerationEnds k net \<Rightarrow>
            (case task_at p k of
               Collecting accessToken \<Rightarrow> (None, on_enumeration k accessToken net p)
             | _ \<Rightarrow> (None, p))
        | PromptAnswer k login fresh \<Rightarrow>
            (case task_at p k of Confirming \<Rightarrow> (None, on_prompt k login fresh p)
             | _ \<Rightarrow> (None, p))
        | CreateAnswer k i fr \<Rightarrow>
            (case task_at p k of Subscribing ps \<Rightarrow> (None, on_create k ps i fr p)
             | _ \<Rightarrow> (None, p)))"

fun steps :: "process \<Rightarrow> event list \<Rightarrow> process" where
  "steps p [] = p"
| "steps p (ev # evs) = steps (snd (step ev p)) evs"

section \<open>Vocabulary of the theorems about the process\<close>

text \<open>An effect that shows a prompt or opens an authorization URL.\<close>

definition prompts_or_opens :: "effect \<Rightarrow> bool" where
  "prompts_or_opens x = (case x of Prompt m \<Rightarrow> True | OpenBrowser u \<Rightarrow> True | _ \<Rightarrow> False)"

text \<open>
  How often \<open>loginDestination\<close> was entered, read off the trace: it is the only place
  that logs this line.
\<close>

definition replicator_runs :: "effect list \<Rightarrow> nat" where
  "replicator_runs tr =
     count_list tr (ConsoleLog ''Successfully logged in to destination account.'')"

text \<open>
  A sequence that an enumeration returned and that is not empty: what \<open>loginSource\<close>
  leaves in \<open>subscriptions\<close> when it goes on to the destination prompt.
\<close>

definition enumerated :: "SubscriptionSnippet option list \<Rightarrow> bool" where
  "enumerated subs =
     (subs \<noteq> [] \<and>
      (\<exists>accessToken net tr. getAllSubscriptions accessToken net = Some (Returned subs, tr)))"

text \<open>
  While the destination prompt is showing or the phase is the destination phase, a running
  process holds such a sequence.
\<close>

definition linked :: "process \<Rightarrow> bool" where
  "linked p =
     (alive (vars p) \<longrightarrow> confirming p \<or> applicationState (vars p) = login_destination
        \<longrightarrow> enumerated (subscriptions (vars p)))"

section \<open>Concrete inputs\<close>

text \<open>Small inputs on which the theorems below are instantiated.\<close>

definition example_config :: Config where
  "example_config =
     \<lparr>clientId = ''id'', clientSecret = ''secret'', port = 8080,
      redirectUrl = ''http://localhost:8080/callback'',
      scope = ''https://www.googleapis.com/auth/youtube.force-ssl'',
      authorizationUrl = ''https://accounts.google.com/o/oauth2/v2/auth'',
      tokenUrl = ''https://oauth2.googleapis.com/token''\<rparr>"

definition channel_a :: SubscriptionSnippet where
  "channel_a = \<lparr>title = ''A'', resourceId = \<lparr>kind = ''youtube#channel'', channelId = ''UCa''\<rparr>\<rparr>"

definition channel_b :: SubscriptionSnippet where
  "channel_b = \<lparr>title = ''B'', resourceId = \<lparr>kind = ''youtube#channel'', channelId = ''UCb''\<rparr>\<rparr>"

definition item_a :: Subscription where
  "item_a = \<lparr>id_sub = ''1'', snippet = channel_a\<rparr>"

definition item_b :: Subscription where
  "item_b = \<lparr>id_sub = ''2'', snippet = channel_b\<rparr>"

text \<open>Two successful pages, the first with a continuation token.\<close>

definition two_pages :: "nat \<Rightarrow> SubscriptionsResponse fetched" where
  "two_pages n =
     (if n = 0 then Resolved \<lparr>ok = True, status = 200, json = Some (page (Some ''P2'') [item_a])\<rparr>
      else if n = 1 then Resolved \<lparr>ok = True, status = 200, json = Some (page None [item_b])\<rparr>
      else Rejected)"

text \<open>One successful page with a continuation token, then status 403.\<close>

definition page_then_403 :: "nat \<Rightarrow> SubscriptionsResponse fetched" where
  "page_then_403 n =
     (if n = 0 then Resolved \<lparr>ok = True, status = 200, json = Some (page (Some ''P2'') [item_a])\<rparr>
      else Resolved \<lparr>ok = False, status = 403,
                     json = Some \<lparr>nextPageToken = None, items = None\<rparr>\<rparr>)"

text \<open>
  One successful page with a continuation token, then status 502 with a body that is not
  JSON (the error page of a gateway).
\<close>

definition page_then_502 :: "nat \<Rightarrow> SubscriptionsResponse fetched" where
  "page_then_502 n =
     (if n = 0 then Resolved \<lparr>ok = True, status = 200, json = Some (page (Some ''P2'') [item_a])\<rparr>
      else Resolved \<lparr>ok = False, status = 502, json = None\<rparr>)"

text \<open>Every response is successful and carries the same continuation token.\<close>

definition same_token_forever :: "nat \<Rightarrow> SubscriptionsResponse fetched" where
  "same_token_forever n =
     Resolved \<lparr>ok = True, status = 200, json = Some (page (Some ''P'') [item_a])\<rparr>"

text \<open>One successful page whose body has neither \<open>items\<close> nor a token.\<close>

definition page_without_items :: "nat \<Rightarrow> SubscriptionsResponse fetched" where
  "page_without_items n =
     Resolved \<lparr>ok = True, status = 200, json = Some \<lparr>nextPageToken = None, items = None\<rparr>\<rparr>"

text \<open>A running process in the destination phase that holds the given subscriptions.\<close>

definition destination_phase :: "SubscriptionSnippet option list \<Rightarrow> app" where
  "destination_phase subs =
     \<lparr>config = example_config, applicationState = login_destination, oauthState = ''state-2'',
      subscriptions = subs, exited = None, unhandled = [], trace = []\<rparr>"

text \<open>A running process in the source phase, after \<open>start\<close>.\<close>

definition source_phase :: app where
  "source_phase =
     \<lparr>config = example_config, applicationState = login_source, oauthState = ''state-1'',
      subscriptions = [], exited = None, unhandled = [], trace = []\<rparr>"

text \<open>The answer of the token endpoint that grants the given access token.\<close>

definition granted :: "string \<Rightarrow> TokenBody fetched" where
  "granted tok = Resolved \<lparr>ok = True, status = 200, json = Some \<lparr>access_token = Some tok\<rparr>\<rparr>"

text \<open>
  An outside world: the token endpoint grants \<open>''token''\<close>, the list endpoint serves
  \<open>two_pages\<close>, the user confirms, the next uuid is \<open>''state-2''\<close>, the first creation
  request succeeds and every other one gets status 403, and the responses arrive in the
  order 1, 0.
\<close>

definition world :: env where
  "world =
     \<lparr>token_response = granted ''token'',
      page_responses = two_pages,
      confirm_destination = True,
      fresh_uuid = ''state-2'',
      create_responses =
        (\<lambda>i. Resolved \<lparr>ok = (i = 0), status = (if i = 0 then 204 else 403), json = None\<rparr>),
      completion_order = [1, 0]\<rparr>"

text \<open>The same, but every creation request fails on the network.\<close>

definition world_offline :: env where
  "world_offline = world\<lparr>create_responses := (\<lambda>i. Rejected)\<rparr>"

text \<open>The same as \<open>world\<close>, but the list endpoint serves \<open>page_without_items\<close>.\<close>

definition world_without_items :: env where
  "world_without_items = world\<lparr>page_responses := page_without_items\<rparr>"

text \<open>The same as \<open>world\<close>, but the first page request already fails.\<close>

definition world_no_pages :: env where
  "world_no_pages =
     world\<lparr>page_responses :=
             (\<lambda>n. Resolved \<lparr>ok = False, status = 403,
                             json = Some \<lparr>nextPageToken = None, items = None\<rparr>\<rparr>)\<rparr>"

text \<open>A well-formed callback of the source phase, one of the destination phase.\<close>

definition source_request :: query where
  "source_request = \<lparr>code = Single ''code-1'', state = Single ''state-1''\<rparr>"

definition destination_request :: query where
  "destination_request = \<lparr>code = Single ''code-2'', state = Single ''state-2''\<rparr>"

text \<open>A callback without a code whose state is given twice, each time the active token.\<close>

definition repeated_state_request :: query where
  "repeated_state_request = \<lparr>code = Missing, state = Repeated [''state-2'', ''state-2'']\<rparr>"

text \<open>One successful page with channel B alone.\<close>

definition one_page_b :: "nat \<Rightarrow> SubscriptionsResponse fetched" where
  "one_page_b n = Resolved \<lparr>ok = True, status = 200, json = Some (page None [item_b])\<rparr>"

text \<open>
  One callback of the source phase up to the destination prompt: the request, the granted
  token, the end of the enumeration.
\<close>

definition one_callback :: "event list" where
  "one_callback =
     [Request source_request, TokenAnswer 0 (granted ''token''), EnumerationEnds 1 two_pages]"

text \<open>
  Two callbacks of the source phase that overlap: the second is accepted and gets its
  token while the enumeration of the first is pending; then the enumeration of the first
  ends, and that of the second is still pending.
\<close>

definition two_callbacks :: "event list" where
  "two_callbacks =
     [Request source_request, TokenAnswer 0 (granted ''token''),
      Request source_request, TokenAnswer 2 (granted ''token''),
      EnumerationEnds 1 two_pages]"

text \<open>The user confirms at the prompt of the call at position 1; the next uuid is \<open>''state-2''\<close>.\<close>

definition confirmation :: event where
  "confirmation = PromptAnswer 1 True ''state-2''"

text \<open>
  After the two overlapping callbacks: the user confirms, the enumeration of the second
  callback ends with channel B alone, and a callback of the destination phase arrives.
\<close>

definition late_enumeration :: "event list" where
  "late_enumeration =
     two_callbacks @ [confirmation, EnumerationEnds 3 one_page_b, Request destination_request]"

text \<open>
  After the single callback: the user confirms, a callback with a repeated state is
  turned away, and a callback of the destination phase arrives and waits for its token.
\<close>

definition awaiting_token :: process where
  "awaiting_token =
     steps (snd (step confirmation (steps (boot source_phase) one_callback)))
       [Request repeated_state_request, Request destination_request]"

section \<open>Properties of the Enumerator\<close>

declare string_of_nat.simps [simp del]

lemma concat_js_page: "concat_js subs (map_option (map (\<lambda>item. Some (snippet item))) (items p)) = subs @ page_snippets p"
  by (simp add: page_snippets_def concat_js_def split: option.splits)

lemma serves_Nil [simp]: "serves net n []"
  by (simp add: serves_def)

lemma serves_iff:
  "serves net n ps \<longleftrightarrow>
   (\<forall>i<length ps. \<exists>r. net (n + i) = Resolved r \<and> ok r \<and> json r = Some (ps ! i))"
proof -
  have "\<And>i. (case net (n + i) of Rejected \<Rightarrow> False
              | Resolved r \<Rightarrow> ok r \<and> json r = Some (ps ! i))
      \<longleftrightarrow> (\<exists>r. net (n + i) = Resolved r \<and> ok r \<and> json r = Some (ps ! i))"
    by (simp split: fetched.splits)
  then show ?thesis
    by (auto simp add: serves_def list_all_iff)
qed

lemma serves_Cons:
  "serves net n (p # ps) \<longleftrightarrow>
   (\<exists>r. net n = Resolved r \<and> ok r \<and> json r = Some p) \<and> serves net (Suc n) ps"
  unfolding serves_iff
  apply (rule iffI)
   apply (rule conjI)
    apply (drule spec[of _ 0], simp)
   apply (intro allI impI)
  subgoal for i by (drule spec[of _ "Suc i"], simp)
  apply (intro allI impI)
  subgoal for i by (cases i) auto
  done

lemma fetch_pages_continue:
  assumes "net n = Resolved r" "ok r" "json r = Some b" "truthy (nextPageToken b)"
  shows "fetch_pages tok net n np subs tr =
         fetch_pages tok net (Suc n) (nextPageToken b) (subs @ page_snippets b)
           (tr @ [HttpGet (subscriptions_url np) tok])"
  using assms by (subst fetch_pages.simps) (simp add: concat_js_page Let_def)

lemma fetch_pages_last:
  assumes "net n = Resolved r" "ok r" "json r = Some b" "\<not> truthy (nextPageToken b)"
  shows "fetch_pages tok net n np subs tr =
         Some (Returned (subs @ page_snippets b), tr @ [HttpGet (subscriptions_url np) tok])"
  using assms by (subst fetch_pages.simps) (simp add: concat_js_page Let_def)

lemma fetch_pages_failed:
  assumes "net n = Resolved r" "\<not> ok r" "json r = Some d"
  shows "fetch_pages tok net n np subs tr =
         Some (Returned subs, tr @ [HttpGet (subscriptions_url np) tok, LogLoadFailure d (status r)])"
  using assms by (subst fetch_pages.simps) (simp add: Let_def)

lemma fetch_pages_invalid_json:
  assumes "net n = Resolved r" "json r = None"
  shows "fetch_pages tok net n np subs tr =
         Some (Threw InvalidJson, tr @ [HttpGet (subscriptions_url np) tok])"
  using assms by (subst fetch_pages.simps) (simp add: Let_def)

lemma fetch_pages_rejected:
  assumes "net n = Rejected"
  shows "fetch_pages tok net n np subs tr =
         Some (Threw FetchError, tr @ [HttpGet (subscriptions_url np) tok])"
  using assms by (subst fetch_pages.simps) (simp add: Let_def)

lemma fetch_pages_prefix:
  "serves net n ps \<Longrightarrow> \<forall>p\<in>set ps. truthy (nextPageToken p) \<Longrightarrow>
   fetch_pages tok net n np subs tr =
   fetch_pages tok net (n + length ps) (last (np # map nextPageToken ps))
     (subs @ concat (map page_snippets ps))
     (tr @ page_requests tok (butlast (np # map nextPageToken ps)))"
proof (induction ps arbitrary: n np subs tr)
  case Nil
  then show ?case by (simp add: page_requests_def)
next
  case (Cons p ps)
  from Cons.prems(1) obtain r where r: "net n = Resolved r" "ok r" "json r = Some p"
    and rest: "serves net (Suc n) ps"
    by (auto simp: serves_Cons)
  from Cons.prems(2) have t: "truthy (nextPageToken p)"
    and ts: "\<forall>p\<in>set ps. truthy (nextPageToken p)"
    by auto
  have "fetch_pages tok net n np subs tr =
         fetch_pages tok net (Suc n) (nextPageToken p) (subs @ page_snippets p)
           (tr @ [HttpGet (subscriptions_url np) tok])"
    using r t by (rule fetch_pages_continue)
  then show ?case
    by (simp add: Cons.IH[OF rest ts] page_requests_def)
qed

lemma fetch_pages_diverges:
  assumes "\<forall>m. \<not> ends_loop (net m)"
  shows "fetch_pages tok net n np subs tr = None"
proof (rule ccontr)
  assume "fetch_pages tok net n np subs tr \<noteq> None"
  then obtain y where y: "fetch_pages tok net n np subs tr = Some y" by auto
  have "(\<forall>m. \<not> ends_loop (net m)) \<longrightarrow> False"
    using y
  proof (induction rule: fetch_pages.raw_induct[rotated 1, consumes 1])
    case (1 f tok net n np subs tr y)
    show ?case
    proof
      assume a: "\<forall>m. \<not> ends_loop (net m)"
      then have "\<not> ends_loop (net n)" by blast
      then obtain r b where r: "net n = Resolved r" "ok r" "json r = Some b"
        "truthy (nextPageToken b)"
        by (auto simp: ends_loop_def split: fetched.splits option.splits)
      with 1(2) obtain np' subs' tr' where "f tok net (Suc n) np' subs' tr' = Some y"
        by (simp add: Let_def)
      from 1(1)[OF this] a show False by blast
    qed
  qed
  with assms show False by blast
qed

lemma fetch_pages_returns:
  "ends_loop (net (n + k)) \<Longrightarrow> fetch_pages tok net n np subs tr \<noteq> None"
proof (induction k arbitrary: n np subs tr)
  case 0
  then show ?case
    by (subst fetch_pages.simps)
       (auto simp: ends_loop_def Let_def split: fetched.splits option.splits)
next
  case (Suc k)
  then have "ends_loop (net (Suc n + k))" by simp
  from Suc.IH[OF this] show ?case
    by (subst fetch_pages.simps) (auto simp: Let_def split: fetched.splits option.splits)
qed


lemma serves_append:
  "serves net n (qs @ ps) \<longleftrightarrow> serves net n qs \<and> serves net (n + length qs) ps"
  by (induction qs arbitrary: n) (simp_all add: serves_Cons)

lemma serves_single:
  "serves net n [p] \<longleftrightarrow> (\<exists>r. net n = Resolved r \<and> ok r \<and> json r = Some p)"
  by (simp add: serves_Cons)

lemma getAllSubscriptions_pages:
  assumes "serves net 0 (qs @ [p])" "\<forall>q\<in>set qs. truthy (nextPageToken q)"
    "\<not> truthy (nextPageToken p)"
  shows "getAllSubscriptions tok net =
         Some (Returned (concat (map page_snippets (qs @ [p]))),
               page_requests tok (None # map nextPageToken qs))"
proof -
  from assms(1) have qs: "serves net 0 qs" and "serves net (length qs) [p]"
    by (simp_all add: serves_append)
  then obtain r where r: "net (length qs) = Resolved r" "ok r" "json r = Some p"
    by (auto simp: serves_single)
  let ?toks = "None # map nextPageToken qs"
  have "getAllSubscriptions tok net =
        fetch_pages tok net (length qs) (last ?toks) (concat (map page_snippets qs))
          (page_requests tok (butlast ?toks))"
    unfolding getAllSubscriptions_def
    using fetch_pages_prefix[OF qs assms(2), of tok None "[]" "[]"] by simp
  also have "\<dots> = Some (Returned (concat (map page_snippets qs) @ page_snippets p),
                        page_requests tok (butlast ?toks) @ [HttpGet (subscriptions_url (last ?toks)) tok])"
    using r assms(3) by (rule fetch_pages_last)
  also have "page_requests tok (butlast ?toks) @ [HttpGet (subscriptions_url (last ?toks)) tok]
             = page_requests tok (butlast ?toks @ [last ?toks])"
    by (simp add: page_requests_def)
  also have "butlast ?toks @ [last ?toks] = ?toks"
    by (rule append_butlast_last_id) simp
  finally show ?thesis by simp
qed

lemma getAllSubscriptions_failure:
  assumes "serves net 0 qs" "\<forall>q\<in>set qs. truthy (nextPageToken q)"
    "net (length qs) = Resolved r" "\<not> ok r" "json r = Some d"
  shows "getAllSubscriptions tok net =
         Some (Returned (concat (map page_snippets qs)),
               page_requests tok (None # map nextPageToken qs) @ [LogLoadFailure d (status r)])"
proof -
  let ?toks = "None # map nextPageToken qs"
  have "getAllSubscriptions tok net =
        fetch_pages tok net (length qs) (last ?toks) (concat (map page_snippets qs))
          (page_requests tok (butlast ?toks))"
    unfolding getAllSubscriptions_def
    using fetch_pages_prefix[OF assms(1,2), of tok None "[]" "[]"] by simp
  also have "\<dots> = Some (Returned (concat (map page_snippets qs)),
                        page_requests tok (butlast ?toks) @ [HttpGet (subscriptions_url (last ?toks)) tok,
                           LogLoadFailure d (status r)])"
    using assms(3,4,5) by (rule fetch_pages_failed)
  also have "page_requests tok (butlast ?toks) @ [HttpGet (subscriptions_url (last ?toks)) tok,
                           LogLoadFailure d (status r)]
             = page_requests tok (butlast ?toks @ [last ?toks]) @ [LogLoadFailure d (status r)]"
    by (simp add: page_requests_def)
  also have "butlast ?toks @ [last ?toks] = ?toks"
    by (rule append_butlast_last_id) simp
  finally show ?thesis .
qed

lemma getAllSubscriptions_failure_without_json:
  assumes "serves net 0 qs" "\<forall>q\<in>set qs. truthy (nextPageToken q)"
    "net (length qs) = Resolved r" "json r = None"
  shows "getAllSubscriptions tok net =
         Some (Threw InvalidJson, page_requests tok (None # map nextPageToken qs))"
proof -
  let ?toks = "None # map nextPageToken qs"
  have "getAllSubscriptions tok net =
        fetch_pages tok net (length qs) (last ?toks) (concat (map page_snippets qs))
          (page_requests tok (butlast ?toks))"
    unfolding getAllSubscriptions_def
    using fetch_pages_prefix[OF assms(1,2), of tok None "[]" "[]"] by simp
  also have "\<dots> = Some (Threw InvalidJson,
                        page_requests tok (butlast ?toks) @ [HttpGet (subscriptions_url (last ?toks)) tok])"
    using assms(3,4) by (rule fetch_pages_invalid_json)
  also have "page_requests tok (butlast ?toks) @ [HttpGet (subscriptions_url (last ?toks)) tok]
             = page_requests tok (butlast ?toks @ [last ?toks])"
    by (simp add: page_requests_def)
  also have "butlast ?toks @ [last ?toks] = ?toks"
    by (rule append_butlast_last_id) simp
  finally show ?thesis .
qed

lemma page_snippets_page: "page_snippets (page t its) = map (\<lambda>item. Some (snippet item)) its"
  by (simp add: page_snippets_def page_def concat_js_def)

lemma page_snippets_no_items: "items p = None \<Longrightarrow> page_snippets p = [None]"
  by (simp add: page_snippets_def concat_js_def)

lemma filter_page_requests: "filter is_page_request (page_requests tok toks) = page_requests tok toks"
  by (induction toks) (simp_all add: page_requests_def is_page_request_def)

text \<open>
  Claim C3. When the list endpoint answers with \<open>k \<ge> 1\<close> successful pages, every page but
  the last with a (non-empty) continuation token and the last without one,
  \<open>getAllSubscriptions\<close> returns the snippets of all items, page after page and in the
  order of each page; the length of the result is the sum of the page sizes. No bound on
  the page sizes is needed.
\<close>

theorem getAllSubscriptions_collects_all_pages:
  assumes "pgs \<noteq> []"
    and "serves net 0 (map (\<lambda>(t, its). page t its) pgs)"
    and "\<forall>(t, its)\<in>set (butlast pgs). truthy t"
    and "\<not> truthy (fst (last pgs))"
  shows "map_option fst (getAllSubscriptions tok net) =
           Some (Returned (concat (map (\<lambda>(t, its). map (\<lambda>item. Some (snippet item)) its) pgs)))
         \<and> length (concat (map (\<lambda>(t, its). map (\<lambda>item. Some (snippet item)) its) pgs))
             = sum_list (map (\<lambda>(t, its). length its) pgs)"
proof -
  let ?pg = "\<lambda>(t, its). page t its"
  from assms(1) obtain qs l where pgs: "pgs = qs @ [l]"
    by (metis append_butlast_last_id)
  have 1: "serves net 0 (map ?pg qs @ [?pg l])"
    using assms(2) by (simp add: pgs)
  have 2: "\<forall>q\<in>set (map ?pg qs). truthy (nextPageToken q)"
    using assms(3) by (auto simp: pgs page_def)
  have 3: "\<not> truthy (nextPageToken (?pg l))"
    using assms(4) by (cases l) (simp add: pgs page_def)
  have snip: "page_snippets (?pg x) = (\<lambda>(t, its). map (\<lambda>item. Some (snippet item)) its) x" for x
    by (simp add: page_snippets_page split: prod.splits)
  have "map_option fst (getAllSubscriptions tok net) =
          Some (Returned (concat (map page_snippets (map ?pg qs @ [?pg l]))))"
    by (simp add: getAllSubscriptions_pages[OF 1 2 3])
  also have "map page_snippets (map ?pg qs @ [?pg l]) =
             map (\<lambda>(t, its). map (\<lambda>item. Some (snippet item)) its) pgs"
    by (simp add: pgs snip o_def)
  finally have a: "map_option fst (getAllSubscriptions tok net) =
           Some (Returned (concat (map (\<lambda>(t, its). map (\<lambda>item. Some (snippet item)) its) pgs)))" .
  have b: "length (concat (map (\<lambda>(t, its). map (\<lambda>item. Some (snippet item)) its) pgs))
             = sum_list (map (\<lambda>(t, its). length its) pgs)"
    by (simp add: length_concat o_def split_def)
  from a b show ?thesis by blast
qed

theorem getAllSubscriptions_collects_all_pages_witness:
  "map_option fst (getAllSubscriptions ''token'' two_pages) =
     Some (Returned [Some channel_a, Some channel_b])
   \<and> length [Some channel_a, Some channel_b] = (1::nat) + 1"
  using getAllSubscriptions_collects_all_pages
          [of "[(Some ''P2'', [item_a]), (None, [item_b])]" two_pages "''token''"]
  by (simp add: serves_def two_pages_def truthy_def item_a_def item_b_def)

text \<open>
  Claim C4, as stated, fails: before \<open>return subscriptions\<close> the loop awaits
  \<open>response.json()\<close> for its log line, and nothing catches what that throws. When the
  failing response has a body that is not JSON, \<open>getAllSubscriptions\<close> throws and returns
  no sequence at all.
\<close>

theorem getAllSubscriptions_throws_on_failure_without_json:
  "getAllSubscriptions ''token'' page_then_502 =
     Some (Threw InvalidJson, page_requests ''token'' [None, Some ''P2''])"
proof -
  have 1: "serves page_then_502 0 [page (Some ''P2'') [item_a]]"
    by (simp add: serves_def page_then_502_def)
  have 2: "\<forall>q\<in>set [page (Some ''P2'') [item_a]]. truthy (nextPageToken q)"
    by (simp add: page_def truthy_def)
  have 3: "page_then_502 (length [page (Some ''P2'') [item_a]])
           = Resolved \<lparr>ok = False, status = 502, json = None\<rparr>"
    by (simp add: page_then_502_def)
  have 4: "json \<lparr>ok = False, status = 502, json = (None :: SubscriptionsResponse option)\<rparr> = None"
    by simp
  have "getAllSubscriptions ''token'' page_then_502 =
        Some (Threw InvalidJson,
              page_requests ''token'' (None # map nextPageToken [page (Some ''P2'') [item_a]]))"
    using 1 2 3 4 by (rule getAllSubscriptions_failure_without_json)
  then show ?thesis by (simp add: page_def)
qed

text \<open>
  Claim C4, amended. When the pages before the failing request were successful (each with
  a continuation token, or the loop would have ended) and the next request gets a
  response that is not \<open>ok\<close>, no request follows the failing one. If the body of that
  response is JSON, \<open>getAllSubscriptions\<close> logs it and returns the snippets of the pages
  before the failure; if it is not, the call throws.
\<close>

theorem getAllSubscriptions_partial_on_failure:
  assumes "serves net 0 (map (\<lambda>(t, its). page t its) pgs)"
    and "\<forall>(t, its)\<in>set pgs. truthy t"
    and "net (length pgs) = Resolved r"
    and "\<not> ok r"
  shows "\<exists>tr. getAllSubscriptions tok net =
           Some (case json r of
                   None \<Rightarrow> Threw InvalidJson
                 | Some d \<Rightarrow>
                     Returned (concat (map (\<lambda>(t, its). map (\<lambda>item. Some (snippet item)) its)
                                           pgs)),
                 tr)
         \<and> tr = page_requests tok (None # map fst pgs)
                  @ (case json r of None \<Rightarrow> [] | Some d \<Rightarrow> [LogLoadFailure d (status r)])
         \<and> length (filter is_page_request tr) = length pgs + 1"
proof -
  let ?pg = "\<lambda>(t, its). page t its"
  have 1: "serves net 0 (map ?pg pgs)" using assms(1) .
  have 2: "\<forall>q\<in>set (map ?pg pgs). truthy (nextPageToken q)"
    using assms(2) by (auto simp: page_def)
  have 3: "net (length (map ?pg pgs)) = Resolved r" using assms(3) by simp
  have snip: "page_snippets (?pg x) = (\<lambda>(t, its). map (\<lambda>item. Some (snippet item)) its) x" for x
    by (simp add: page_snippets_page split: prod.splits)
  have tok: "nextPageToken (?pg x) = fst x" for x
    by (simp add: page_def split: prod.splits)
  have count: "length (filter is_page_request (page_requests tok (None # map fst pgs) @ extra))
               = length pgs + 1"
    if "\<forall>x\<in>set extra. \<not> is_page_request x" for extra
    using that by (simp add: filter_page_requests) (simp add: page_requests_def)
  show ?thesis
  proof (cases "json r")
    case None
    have "getAllSubscriptions tok net =
         Some (Threw InvalidJson, page_requests tok (None # map nextPageToken (map ?pg pgs)))"
      using 1 2 3 None by (rule getAllSubscriptions_failure_without_json)
    then have "getAllSubscriptions tok net =
         Some (Threw InvalidJson, page_requests tok (None # map fst pgs))"
      by (simp add: tok o_def)
    moreover have "length (filter is_page_request (page_requests tok (None # map fst pgs) @ []))
                   = length pgs + 1"
      by (rule count) simp
    ultimately show ?thesis using None by simp
  next
    case (Some d)
    have "getAllSubscriptions tok net =
         Some (Returned (concat (map page_snippets (map ?pg pgs))),
               page_requests tok (None # map nextPageToken (map ?pg pgs))
                 @ [LogLoadFailure d (status r)])"
      using 1 2 3 assms(4) Some by (rule getAllSubscriptions_failure)
    then have "getAllSubscriptions tok net =
         Some (Returned (concat (map (\<lambda>(t, its). map (\<lambda>item. Some (snippet item)) its) pgs)),
               page_requests tok (None # map fst pgs) @ [LogLoadFailure d (status r)])"
      by (simp add: snip tok o_def)
    moreover have "length (filter is_page_request
        (page_requests tok (None # map fst pgs) @ [LogLoadFailure d (status r)])) = length pgs + 1"
      by (rule count) (simp add: is_page_request_def)
    ultimately show ?thesis using Some by simp
  qed
qed

theorem getAllSubscriptions_partial_on_failure_witness:
  "(\<exists>tr. getAllSubscriptions ''token'' page_then_403 = Some (Returned [Some channel_a], tr)
      \<and> tr = page_requests ''token'' [None, Some ''P2'']
               @ [LogLoadFailure \<lparr>nextPageToken = None, items = None\<rparr> 403]
      \<and> length (filter is_page_request tr) = 2)
   \<and> (\<exists>tr. getAllSubscriptions ''token'' page_then_502 = Some (Threw InvalidJson, tr)
        \<and> tr = page_requests ''token'' [None, Some ''P2'']
        \<and> length (filter is_page_request tr) = 2)"
  using getAllSubscriptions_partial_on_failure
          [of page_then_403 "[(Some ''P2'', [item_a])]"
              "\<lparr>ok = False, status = 403, json = Some \<lparr>nextPageToken = None, items = None\<rparr>\<rparr>"
              "''token''"]
        getAllSubscriptions_partial_on_failure
          [of page_then_502 "[(Some ''P2'', [item_a])]"
              "\<lparr>ok = False, status = 502, json = None\<rparr>" "''token''"]
  by (simp add: serves_def page_then_403_def page_then_502_def truthy_def item_a_def)

text \<open>
  Claim C5, as stated, fails: the loop does not compare a continuation token with the
  previous one. On a stream that repeats the same token forever, the call never returns.
\<close>

theorem getAllSubscriptions_unbounded_on_repeated_token:
  "getAllSubscriptions ''token'' same_token_forever = None"
  unfolding getAllSubscriptions_def
  by (rule fetch_pages_diverges) (simp add: ends_loop_def same_token_forever_def page_def truthy_def)

text \<open>
  Claim C5, amended. \<open>getAllSubscriptions\<close> comes to an end (it returns or throws) exactly
  when some response of the stream ends the loop: a rejected request, a response that is
  not \<open>ok\<close>, a body that is not JSON, or a page without a non-empty continuation token. A
  repeated token is not among the conditions.
\<close>

theorem getAllSubscriptions_returns_iff:
  "(\<exists>res. getAllSubscriptions tok net = Some res) \<longleftrightarrow> (\<exists>n. ends_loop (net n))"
proof
  assume returns: "\<exists>res. getAllSubscriptions tok net = Some res"
  show "\<exists>n. ends_loop (net n)"
  proof (rule ccontr)
    assume "\<not> (\<exists>n. ends_loop (net n))"
    then have "\<forall>m. \<not> ends_loop (net m)" by simp
    then have "getAllSubscriptions tok net = None"
      unfolding getAllSubscriptions_def by (rule fetch_pages_diverges)
    with returns show False by simp
  qed
next
  assume "\<exists>n. ends_loop (net n)"
  then obtain n where "ends_loop (net (0 + n))" by auto
  then have "fetch_pages tok net 0 None [] [] \<noteq> None"
    by (rule fetch_pages_returns)
  then show "\<exists>res. getAllSubscriptions tok net = Some res"
    by (simp add: getAllSubscriptions_def)
qed

theorem getAllSubscriptions_returns_iff_witness:
  "(\<exists>res. getAllSubscriptions ''token'' two_pages = Some res) \<and> ends_loop (two_pages 1)
   \<and> (\<forall>n. \<not> ends_loop (same_token_forever n)) \<and> getAllSubscriptions ''token'' same_token_forever = None"
proof -
  have 1: "ends_loop (two_pages 1)"
    by (simp add: ends_loop_def two_pages_def page_def truthy_def)
  have 2: "\<forall>n. \<not> ends_loop (same_token_forever n)"
    by (simp add: ends_loop_def same_token_forever_def page_def truthy_def)
  from 1 have "\<exists>res. getAllSubscriptions ''token'' two_pages = Some res"
    using getAllSubscriptions_returns_iff[of "''token''" two_pages] by blast
  moreover have "getAllSubscriptions ''token'' same_token_forever = None"
  proof (cases "getAllSubscriptions ''token'' same_token_forever")
    case (Some res)
    then have "\<exists>n. ends_loop (same_token_forever n)"
      using getAllSubscriptions_returns_iff[of "''token''" same_token_forever] by blast
    with 2 show ?thesis by blast
  qed simp
  ultimately show ?thesis using 1 2 by blast
qed

section \<open>Properties of the Replicator\<close>

lemma thrown_Cons:
  "thrown tok (x # xs) = (case x of None \<Rightarrow> [TypeError] | Some y \<Rightarrow> []) @ thrown tok xs"
  by (simp add: thrown_def subscribeChannel_def split: option.splits)

lemma thrown_undefined: "None \<in> set subs \<Longrightarrow> \<exists>errs. thrown tok subs = TypeError # errs"
proof (induction subs)
  case Nil
  then show ?case by simp
next
  case (Cons x xs)
  then show ?case by (cases x) (auto simp: thrown_Cons)
qed

lemma thrown_defined: "thrown tok (map Some xs) = []"
  by (induction xs) (simp_all add: thrown_Cons, simp add: thrown_def)

lemma sent_requests_defined:
  "sent_requests tok (map Some xs) = map (\<lambda>x. HttpPostSubscription create_url tok (resourceId x)) xs"
  by (induction xs) (simp_all add: sent_requests_def subscribeChannel_def)

lemma waiting_snoc:
  "waiting (xs @ [x]) = waiting xs @ (case x of None \<Rightarrow> [] | Some y \<Rightarrow> [(length xs, y)])"
  by (simp add: waiting_def)

lemma waiting_defined: "waiting (map Some xs) = zip [0..<length xs] xs"
proof (induction xs rule: rev_induct)
  case Nil
  then show ?case by (simp add: waiting_def)
next
  case (snoc x xs)
  have "waiting (map Some (xs @ [x])) = waiting (map Some xs @ [Some x])" by simp
  also have "\<dots> = waiting (map Some xs) @ [(length xs, x)]"
    by (simp only: waiting_snoc) simp
  finally show ?case by (simp add: snoc.IH)
qed

lemma mset_remove_key:
  "distinct (map fst ps) \<Longrightarrow> map_of ps i = Some x \<Longrightarrow>
   mset ps = add_mset (i, x) (mset (filter (\<lambda>q. fst q \<noteq> i) ps))"
proof (induction ps)
  case Nil
  then show ?case by simp
next
  case (Cons p ps)
  show ?case
  proof (cases "fst p = i")
    case True
    with Cons.prems have p: "p = (i, x)" by (cases p) auto
    from Cons.prems True have "i \<notin> fst ` set ps" by auto
    then have "\<forall>q\<in>set ps. fst q \<noteq> i" by force
    then have "filter (\<lambda>q. fst q \<noteq> i) ps = ps" by (simp add: filter_id_conv)
    with p show ?thesis by simp
  next
    case False
    with Cons.prems have "map_of ps i = Some x" "distinct (map fst ps)"
      by (cases p; auto)+
    from Cons.IH[OF this(2,1)] False show ?thesis by simp
  qed
qed

lemma await_all_fulfilled:
  assumes "distinct (map fst ps)"
    and "fst ` set ps \<subseteq> set sched"
    and "\<forall>i\<in>fst ` set ps. net i \<noteq> Rejected"
  shows "\<exists>ns. await_all net ps sched tr = (AllFulfilled, tr @ ns)
              \<and> mset ns = mset (map (\<lambda>(i, x). notice (succeeded (net i)) x) ps)"
  using assms
proof (induction sched arbitrary: ps tr)
  case Nil
  then have "ps = []" by auto
  then show ?case by simp
next
  case (Cons i sched)
  show ?case
  proof (cases ps)
    case Nil
    then show ?thesis by simp
  next
    case (Cons p ps')
    show ?thesis
    proof (cases "map_of ps i")
      case None
      then have "i \<notin> fst ` set ps" by (simp add: map_of_eq_None_iff)
      with Cons.prems(2) have sub: "fst ` set ps \<subseteq> set sched" by auto
      from Cons.IH[OF Cons.prems(1) sub Cons.prems(3), of tr] None show ?thesis
        by (simp add: \<open>ps = p # ps'\<close>)
    next
      case (Some x)
      then have mem: "(i, x) \<in> set ps" by (rule map_of_SomeD)
      then have "net i \<noteq> Rejected" using Cons.prems(3) by force
      then obtain r where r: "net i = Resolved r" by (cases "net i") auto
      let ?rest = "filter (\<lambda>q. fst q \<noteq> i) ps"
      have d: "distinct (map fst ?rest)" using Cons.prems(1) by (simp add: distinct_map_filter)
      have s: "fst ` set ?rest \<subseteq> set sched" using Cons.prems(2) by auto
      have n: "\<forall>i\<in>fst ` set ?rest. net i \<noteq> Rejected" using Cons.prems(3) by auto
      from Cons.IH[OF d s n, of "tr @ [notice (ok r) x]"]
      obtain ns where ns: "await_all net ?rest sched (tr @ [notice (ok r) x])
                             = (AllFulfilled, (tr @ [notice (ok r) x]) @ ns)"
        and ms: "mset ns = mset (map (\<lambda>(i, x). notice (succeeded (net i)) x) ?rest)"
        by blast
      have step: "await_all net ps (i # sched) tr = (AllFulfilled, tr @ (notice (ok r) x # ns))"
        using Some r ns by (simp add: \<open>ps = p # ps'\<close>)
      have "mset (map (\<lambda>(i, x). notice (succeeded (net i)) x) ps)
            = image_mset (\<lambda>(i, x). notice (succeeded (net i)) x) (mset ps)" by simp
      also have "mset ps = add_mset (i, x) (mset ?rest)"
        using Cons.prems(1) Some by (rule mset_remove_key)
      finally have "mset (map (\<lambda>(i, x). notice (succeeded (net i)) x) ps)
            = add_mset (notice (ok r) x) (mset ns)"
        by (simp add: ms succeeded_def r)
      with step show ?thesis by auto
    qed
  qed
qed

lemma string_of_nat_digit: "n < 10 \<Longrightarrow> string_of_nat n = [''0123456789'' ! n]"
  by (subst string_of_nat.simps) simp

lemma notice_not_done: "notice b x \<noteq> done_line"
  by (simp add: notice_def done_line_def)

lemma loginDestination_defined:
  assumes "subscriptions s = map Some xs"
  shows "loginDestination tok e s =
    (let s1 = log_to (destination_banner (length xs)
                      @ map (\<lambda>x. HttpPostSubscription create_url tok (resourceId x)) xs) s
     in case await_all (create_responses e) (zip [0..<length xs] xs) (completion_order e) (trace s1) of
          (AllFulfilled, tr) \<Rightarrow> s1\<lparr>trace := tr @ [done_line], exited := Some 0\<rparr>
        | (StillWaiting, tr) \<Rightarrow> s1\<lparr>trace := tr\<rparr>
        | (OneRejected err, tr) \<Rightarrow> s1\<lparr>trace := tr, unhandled := unhandled s1 @ [err]\<rparr>)"
  by (simp add: loginDestination_def assms thrown_defined sent_requests_defined waiting_defined
        Let_def split: prod.splits settled.splits)

lemma loginDestination_undefined:
  assumes "None \<in> set (subscriptions s)"
  shows "loginDestination tok e s =
    (log_to (destination_banner (length (subscriptions s)) @ sent_requests tok (subscriptions s)) s)
      \<lparr>unhandled := unhandled s @ [TypeError]\<rparr>"
proof -
  from thrown_undefined[OF assms] obtain errs where "thrown tok (subscriptions s) = TypeError # errs"
    by blast
  then show ?thesis
    by (simp add: loginDestination_def Let_def log_to_def)
qed

text \<open>
  Claim C2, amended. When every collected entry is a subscription record, every creation
  request is answered by an HTTP response (successful or not) and all responses arrive,
  \<open>loginDestination\<close> sends one creation request per subscription, all of them before it
  handles any response, logs for each subscription one line with its title, chosen by
  \<open>response.ok\<close> alone, then logs \<open>Done!\<close> once, after all these lines, and exits with
  status 0, whatever the number of unsuccessful responses.
\<close>

theorem loginDestination_completes:
  assumes "subscriptions s = map Some xs"
    and "\<forall>i<length xs. create_responses e i \<noteq> Rejected"
    and "\<forall>i<length xs. i \<in> set (completion_order e)"
  shows "\<exists>ns. trace (loginDestination tok e s) =
            trace s @ destination_banner (length xs)
            @ map (\<lambda>x. HttpPostSubscription create_url tok (resourceId x)) xs
            @ ns @ [done_line]
          \<and> mset ns = mset (map (\<lambda>(i, x). notice (succeeded (create_responses e i)) x)
                                 (zip [0..<length xs] xs))
          \<and> done_line \<notin> set (destination_banner (length xs)
                               @ map (\<lambda>x. HttpPostSubscription create_url tok (resourceId x)) xs
                               @ ns)
          \<and> exited (loginDestination tok e s) = Some 0
          \<and> unhandled (loginDestination tok e s) = unhandled s"
proof -
  let ?ps = "zip [0..<length xs] xs"
  let ?s1 = "log_to (destination_banner (length xs)
                      @ map (\<lambda>x. HttpPostSubscription create_url tok (resourceId x)) xs) s"
  have keys: "map fst ?ps = [0..<length xs]" by simp
  have d: "distinct (map fst ?ps)" by (simp only: keys) simp
  have dom: "fst ` set ?ps = {0..<length xs}"
    using keys by (metis atLeastLessThan_upt list.set_map)
  have c: "fst ` set ?ps \<subseteq> set (completion_order e)"
    using assms(3) by (auto simp: dom)
  have n: "\<forall>i\<in>fst ` set ?ps. create_responses e i \<noteq> Rejected"
    using assms(2) by (auto simp: dom)
  from await_all_fulfilled[OF d c n, of "trace ?s1"]
  obtain ns where ns: "await_all (create_responses e) ?ps (completion_order e) (trace ?s1)
                         = (AllFulfilled, trace ?s1 @ ns)"
    and ms: "mset ns = mset (map (\<lambda>(i, x). notice (succeeded (create_responses e i)) x) ?ps)"
    by blast
  from ms have "set ns = set (map (\<lambda>(i, x). notice (succeeded (create_responses e i)) x) ?ps)"
    by (rule mset_eq_setD)
  then have "done_line \<notin> set ns"
    by (auto simp: notice_not_done[symmetric])
  then have nd: "done_line \<notin> set (destination_banner (length xs)
                               @ map (\<lambda>x. HttpPostSubscription create_url tok (resourceId x)) xs
                               @ ns)"
    by (auto simp: destination_banner_def done_line_def)
  have res: "loginDestination tok e s = ?s1\<lparr>trace := (trace ?s1 @ ns) @ [done_line], exited := Some 0\<rparr>"
    by (simp add: loginDestination_defined[OF assms(1)] ns Let_def)
  have "trace (loginDestination tok e s) =
            trace s @ destination_banner (length xs)
            @ map (\<lambda>x. HttpPostSubscription create_url tok (resourceId x)) xs
            @ ns @ [done_line]"
    by (simp add: res log_to_def)
  moreover have "exited (loginDestination tok e s) = Some 0"
    by (simp add: res)
  moreover have "unhandled (loginDestination tok e s) = unhandled s"
    by (simp add: res log_to_def)
  ultimately show ?thesis using ms nd by blast
qed

theorem loginDestination_completes_witness:
  "\<exists>ns. trace (loginDestination ''token'' world (destination_phase [Some channel_a, Some channel_b])) =
            [ConsoleLog ''Successfully logged in to destination account.'',
             ConsoleLog ''Subscribing to 2 channels ...'',
             HttpPostSubscription create_url ''token'' (resourceId channel_a),
             HttpPostSubscription create_url ''token'' (resourceId channel_b)]
            @ ns @ [ConsoleLog ''Done!'']
       \<and> mset ns = {#ConsoleLog ''Subscribed to A'', ConsoleLog ''Failed to subscribe to B''#}
       \<and> exited (loginDestination ''token'' world (destination_phase [Some channel_a, Some channel_b])) = Some 0"
proof -
  let ?s = "destination_phase [Some channel_a, Some channel_b]"
  have 1: "subscriptions ?s = map Some [channel_a, channel_b]"
    by (simp add: destination_phase_def)
  have 2: "\<forall>i<length [channel_a, channel_b]. create_responses world i \<noteq> Rejected"
    by (simp add: world_def)
  have 3: "\<forall>i<length [channel_a, channel_b]. i \<in> set (completion_order world)"
    by (auto simp: world_def less_Suc_eq)
  have z: "zip [0..<length [channel_a, channel_b]] [channel_a, channel_b] = [(0, channel_a), (1, channel_b)]"
    by (simp add: upt_rec)
  from loginDestination_completes[OF 1 2 3, of "''token''"]
  obtain ns where t: "trace (loginDestination ''token'' world ?s) =
            trace ?s @ destination_banner (length [channel_a, channel_b])
            @ map (\<lambda>x. HttpPostSubscription create_url ''token'' (resourceId x)) [channel_a, channel_b]
            @ ns @ [done_line]"
    and m: "mset ns = mset (map (\<lambda>(i, x). notice (succeeded (create_responses world i)) x)
                                 (zip [0..<length [channel_a, channel_b]] [channel_a, channel_b]))"
    and x: "exited (loginDestination ''token'' world ?s) = Some 0"
    by blast
  have d: "destination_banner (length [channel_a, channel_b]) =
            [ConsoleLog ''Successfully logged in to destination account.'',
             ConsoleLog ''Subscribing to 2 channels ...'']"
    by (simp add: destination_banner_def string_of_nat_digit)
  have m': "mset ns = {#ConsoleLog ''Subscribed to A'', ConsoleLog ''Failed to subscribe to B''#}"
    unfolding m z by (simp add: world_def notice_def succeeded_def channel_a_def channel_b_def)
  have t': "trace (loginDestination ''token'' world ?s) =
            [ConsoleLog ''Successfully logged in to destination account.'',
             ConsoleLog ''Subscribing to 2 channels ...'',
             HttpPostSubscription create_url ''token'' (resourceId channel_a),
             HttpPostSubscription create_url ''token'' (resourceId channel_b)]
            @ ns @ [ConsoleLog ''Done!'']"
    unfolding t d by (simp add: destination_phase_def done_line_def)
  from t' m' x show ?thesis by blast
qed

text \<open>
  Claim C2, as stated, fails: a creation request that fails on the network rejects its
  task, and \<open>Promise.all\<close> rejects with it. \<open>Done!\<close> is never logged and \<open>process.exit(0)\<close>
  is never reached. The same happens for an entry that is \<open>undefined\<close>.
\<close>

theorem loginDestination_no_completion_after_rejection:
  "exited (loginDestination ''token'' world_offline (destination_phase [Some channel_a])) = None
   \<and> done_line \<notin> set (trace (loginDestination ''token'' world_offline (destination_phase [Some channel_a])))
   \<and> unhandled (loginDestination ''token'' world_offline (destination_phase [Some channel_a]))
       = [FetchError]
   \<and> exited (loginDestination ''token'' world (destination_phase [None])) = None
   \<and> done_line \<notin> set (trace (loginDestination ''token'' world (destination_phase [None])))
   \<and> unhandled (loginDestination ''token'' world (destination_phase [None])) = [TypeError]"
proof -
  have s: "subscriptions (destination_phase [Some channel_a]) = map Some [channel_a]"
    by (simp add: destination_phase_def)
  have a: "await_all (create_responses world_offline) (zip [0..<length [channel_a]] [channel_a])
             (completion_order world_offline) tr = (OneRejected FetchError, tr)" for tr
    by (simp add: world_offline_def world_def)
  have "loginDestination ''token'' world_offline (destination_phase [Some channel_a]) =
        (destination_phase [Some channel_a])
          \<lparr>trace := destination_banner 1 @ [HttpPostSubscription create_url ''token'' (resourceId channel_a)],
           unhandled := [FetchError]\<rparr>"
    unfolding loginDestination_defined[OF s] Let_def a
    by (simp add: log_to_def destination_phase_def)
  then have 1: "exited (loginDestination ''token'' world_offline (destination_phase [Some channel_a])) = None
   \<and> done_line \<notin> set (trace (loginDestination ''token'' world_offline (destination_phase [Some channel_a])))
   \<and> unhandled (loginDestination ''token'' world_offline (destination_phase [Some channel_a]))
       = [FetchError]"
    by (simp add: destination_phase_def destination_banner_def done_line_def)
  have n: "None \<in> set (subscriptions (destination_phase [None]))"
    by (simp add: destination_phase_def)
  have 2: "exited (loginDestination ''token'' world (destination_phase [None])) = None
   \<and> done_line \<notin> set (trace (loginDestination ''token'' world (destination_phase [None])))
   \<and> unhandled (loginDestination ''token'' world (destination_phase [None])) = [TypeError]"
    unfolding loginDestination_undefined[OF n]
    by (simp add: destination_phase_def destination_banner_def done_line_def sent_requests_def
          subscribeChannel_def log_to_def)
  from 1 2 show ?thesis by simp
qed


section \<open>Properties of the callback handler and of the two phases\<close>

lemma log_to_fields [simp]:
  "applicationState (log_to es s) = applicationState s"
  "oauthState (log_to es s) = oauthState s"
  "subscriptions (log_to es s) = subscriptions s"
  "config (log_to es s) = config s"
  "exited (log_to es s) = exited s"
  "unhandled (log_to es s) = unhandled s"
  "trace (log_to es s) = trace s @ es"
  by (simp_all add: log_to_def)

lemma callback_code_rejected:
  "code_rejected (code q) \<Longrightarrow> callback q e s = (Body failed_login, s)"
  by (simp add: callback_def)

lemma callback_state_rejected:
  "\<not> code_rejected (code q) \<Longrightarrow> state_rejected (state q) (oauthState s) \<Longrightarrow>
   callback q e s = (Body invalid_state, s)"
  by (simp add: callback_def)

lemma exchange_granted:
  assumes "fr = Resolved r" "ok r" "json r = Some b" "access_token b = Some tok" "tok \<noteq> []"
  shows "exchangeForAccessToken cfg c fr = (Returned (Some tok), [HttpPostToken (token_link cfg c)])"
  using assms by (simp add: exchangeForAccessToken_def truthy_def Let_def)

lemma callback_accepted:
  assumes "code q = Single c" "c \<noteq> []" "\<not> state_rejected (state q) (oauthState s)"
    and "token_response e = Resolved r" "ok r" "json r = Some b" "access_token b = Some tok"
      "tok \<noteq> []"
  shows "callback q e s =
    (Body check_terminal,
     (case applicationState s of
        login_source \<Rightarrow> loginSource tok e (log_to [HttpPostToken (token_link (config s) c)] s)
      | login_destination \<Rightarrow>
          loginDestination tok e (log_to [HttpPostToken (token_link (config s) c)] s)))"
proof -
  have x: "exchangeForAccessToken (config s) c (token_response e)
           = (Returned (Some tok), [HttpPostToken (token_link (config s) c)])"
    using assms(4-8) by (rule exchange_granted)
  show ?thesis
    using assms(1-3)
    by (cases "applicationState s")
       (simp_all add: callback_def code_rejected_def x Let_def log_to_def)
qed

lemma loginDestination_frame:
  "subscriptions (loginDestination tok e s) = subscriptions s
   \<and> applicationState (loginDestination tok e s) = applicationState s
   \<and> oauthState (loginDestination tok e s) = oauthState s
   \<and> config (loginDestination tok e s) = config s"
  by (simp add: loginDestination_def Let_def log_to_def
        split: list.splits prod.splits settled.splits)

lemma run_exited: "exited s \<noteq> None \<Longrightarrow> run s evs = s"
  by (induction evs arbitrary: s) (auto simp: alive_def)

lemma startLogin_frame:
  "subscriptions (startLogin fresh s) = subscriptions s
   \<and> applicationState (startLogin fresh s) = applicationState s
   \<and> oauthState (startLogin fresh s) = fresh
   \<and> exited (startLogin fresh s) = exited s"
  by (simp add: startLogin_def log_to_def)

lemma fetch_pages_effects:
  assumes "fetch_pages tok net n np subs tr = Some y"
  shows "\<exists>added. snd y = tr @ added \<and> (\<forall>x\<in>set added. \<not> prompts_or_opens x)"
  using assms
proof (induction rule: fetch_pages.raw_induct[rotated 1, consumes 1])
  case (1 f tok net n np subs tr y)
  let ?rq = "HttpGet (subscriptions_url np) tok"
  have quiet: "\<forall>x\<in>set [?rq]. \<not> prompts_or_opens x" by (simp add: prompts_or_opens_def)
  show ?case
  proof (cases "net n")
    case Rejected
    with 1(2) have "snd y = tr @ [?rq]" by (auto simp: Let_def)
    with quiet show ?thesis by blast
  next
    case (Resolved r)
    show ?thesis
    proof (cases "json r")
      case None
      with 1(2) Resolved have "snd y = tr @ [?rq]" by (auto simp: Let_def split: if_splits)
      with quiet show ?thesis by blast
    next
      case (Some b)
      show ?thesis
      proof (cases "ok r")
        case False
        with 1(2) Resolved Some have "snd y = tr @ [?rq, LogLoadFailure b (status r)]"
          by (auto simp: Let_def)
        moreover have "\<forall>x\<in>set [?rq, LogLoadFailure b (status r)]. \<not> prompts_or_opens x"
          by (simp add: prompts_or_opens_def)
        ultimately show ?thesis by blast
      next
        case True
        show ?thesis
        proof (cases "truthy (nextPageToken b)")
          case False
          with 1(2) Resolved Some True have "snd y = tr @ [?rq]" by (auto simp: Let_def)
          with quiet show ?thesis by blast
        next
          case t: True
          with 1(2) Resolved Some True obtain subs' where
            "f tok net (Suc n) (nextPageToken b) subs' (tr @ [?rq]) = Some y"
            by (simp add: Let_def)
          from 1(1)[OF this] obtain added where
            a: "snd y = (tr @ [?rq]) @ added" "\<forall>x\<in>set added. \<not> prompts_or_opens x" by blast
          have "snd y = tr @ (?rq # added)" using a(1) by simp
          moreover have "\<forall>x\<in>set (?rq # added). \<not> prompts_or_opens x"
            using a(2) by (simp add: prompts_or_opens_def)
          ultimately show ?thesis by blast
        qed
      qed
    qed
  qed
qed

lemma getAllSubscriptions_effects:
  "getAllSubscriptions tok net = Some (res, tr) \<Longrightarrow> \<forall>x\<in>set tr. \<not> prompts_or_opens x"
  using fetch_pages_effects[of tok net 0 None "[]" "[]" "(res, tr)"]
  by (simp add: getAllSubscriptions_def)

lemma source_banner_quiet: "\<forall>x\<in>set source_banner. \<not> prompts_or_opens x"
  by (simp add: source_banner_def prompts_or_opens_def)

lemma getAllSubscriptions_no_pages:
  "getAllSubscriptions tok (page_responses world_no_pages) =
   Some (Returned [], [HttpGet (subscriptions_url None) tok,
                       LogLoadFailure \<lparr>nextPageToken = None, items = None\<rparr> 403])"
  unfolding getAllSubscriptions_def
  by (subst fetch_pages.simps) (simp add: world_no_pages_def world_def Let_def)

lemma replicator_runs_append:
  "replicator_runs (xs @ ys) = replicator_runs xs + replicator_runs ys"
  by (simp add: replicator_runs_def)

lemma replicator_runs_banner: "replicator_runs (destination_banner n) = 1"
  by (simp add: replicator_runs_def destination_banner_def)

lemma replicator_runs_requests: "replicator_runs (sent_requests tok subs) = 0"
proof -
  have "x \<in> set (sent_requests tok subs) \<Longrightarrow> \<exists>r. x = HttpPostSubscription create_url tok r" for x
    by (auto simp: sent_requests_def subscribeChannel_def split: option.splits)
  then show ?thesis
    by (auto simp: replicator_runs_def count_list_0_iff)
qed

lemma page_nextPageToken: "nextPageToken (page t its) = t"
  by (simp add: page_def)

lemma getAllSubscriptions_two_pages:
  "getAllSubscriptions tok two_pages =
   Some (Returned [Some channel_a, Some channel_b], page_requests tok [None, Some ''P2''])"
proof -
  have 1: "serves two_pages 0 ([page (Some ''P2'') [item_a]] @ [page None [item_b]])"
    by (simp add: serves_def two_pages_def)
  have 2: "\<forall>q\<in>set [page (Some ''P2'') [item_a]]. truthy (nextPageToken q)"
    by (simp add: page_def truthy_def)
  have 3: "\<not> truthy (nextPageToken (page None [item_b]))"
    by (simp add: page_def truthy_def)
  from getAllSubscriptions_pages[OF 1 2 3, of tok] show ?thesis
    by (simp add: page_snippets_page page_nextPageToken item_a_def item_b_def)
qed

section \<open>The claims about the callback handler and the two phases\<close>

text \<open>
  Claim C1. A callback whose \<open>code\<close> is missing or not a single string, or whose \<open>state\<close>
  is missing or not the active anti-forgery token, is answered with one of the two
  failure messages, and the state of the process is the same afterwards: the phase, the
  subscriptions and the trace (no request of any kind was sent).
\<close>

theorem callback_rejects_without_advancing:
  assumes "(\<forall>c. code q \<noteq> Single c) \<or> state q \<noteq> Single (oauthState s)"
  shows "snd (callback q e s) = s
       \<and> fst (callback q e s) \<in> {Body failed_login, Body invalid_state}
       \<and> applicationState (snd (callback q e s)) = applicationState s
       \<and> subscriptions (snd (callback q e s)) = subscriptions s
       \<and> trace (snd (callback q e s)) = trace s"
proof (cases "code_rejected (code q)")
  case True
  then show ?thesis by (simp add: callback_code_rejected)
next
  case False
  then have "\<exists>c. code q = Single c"
    by (cases "code q") (simp_all add: code_rejected_def)
  with assms have "state q \<noteq> Single (oauthState s)" by blast
  then have "state_rejected (state q) (oauthState s)"
    by (cases "state q") (auto simp: state_rejected_def)
  with False show ?thesis by (simp add: callback_state_rejected)
qed

theorem callback_rejects_without_advancing_witness:
  "snd (callback \<lparr>code = Missing, state = Single ''state-1''\<rparr> world source_phase) = source_phase
   \<and> snd (callback \<lparr>code = Single ''code-1'', state = Single ''stale''\<rparr> world source_phase)
       = source_phase
   \<and> fst (callback \<lparr>code = Single ''code-1'', state = Single ''stale''\<rparr> world source_phase)
       \<in> {Body failed_login, Body invalid_state}"
  using callback_rejects_without_advancing
          [of "\<lparr>code = Missing, state = Single ''state-1''\<rparr>" source_phase world]
        callback_rejects_without_advancing
          [of "\<lparr>code = Single ''code-1'', state = Single ''stale''\<rparr>" source_phase world]
  by (simp add: source_phase_def)

text \<open>
  Claim C6. When the enumeration of the source phase returns the empty sequence,
  \<open>loginSource\<close> calls \<open>process.exit(1)\<close>: the phase and the anti-forgery token stay as
  they were, the effects of the call are its two log lines, the page requests and the
  message, none of which is a prompt or an opened URL, and no later callback changes
  anything, because the process is gone.
\<close>

theorem loginSource_empty_is_fatal:
  assumes "getAllSubscriptions tok (page_responses e) = Some (Returned [], tr)"
  shows "exited (loginSource tok e s) = Some 1
       \<and> applicationState (loginSource tok e s) = applicationState s
       \<and> oauthState (loginSource tok e s) = oauthState s
       \<and> trace (loginSource tok e s)
           = trace s @ source_banner @ tr @ [ConsoleLog no_subscriptions_message]
       \<and> \<not> list_ex prompts_or_opens (source_banner @ tr @ [ConsoleLog no_subscriptions_message])
       \<and> (\<forall>evs. run (loginSource tok e s) evs = loginSource tok e s)"
proof -
  have eq: "loginSource tok e s =
        (log_to (source_banner @ tr @ [ConsoleLog no_subscriptions_message]) s)
          \<lparr>subscriptions := [], exited := Some 1\<rparr>"
    by (simp add: loginSource_def assms Let_def log_to_def)
  have quiet: "\<not> list_ex prompts_or_opens (source_banner @ tr @ [ConsoleLog no_subscriptions_message])"
    using getAllSubscriptions_effects[OF assms] source_banner_quiet
    by (auto simp: list_ex_iff prompts_or_opens_def)
  have "exited (loginSource tok e s) \<noteq> None" by (simp add: eq)
  then have "\<forall>evs. run (loginSource tok e s) evs = loginSource tok e s"
    by (simp add: run_exited)
  then show ?thesis using quiet by (simp add: eq)
qed

theorem loginSource_empty_is_fatal_witness:
  "exited (loginSource ''token'' world_no_pages source_phase) = Some 1
   \<and> applicationState (loginSource ''token'' world_no_pages source_phase) = login_source
   \<and> oauthState (loginSource ''token'' world_no_pages source_phase) = ''state-1''
   \<and> run (loginSource ''token'' world_no_pages source_phase) [(destination_request, world)]
       = loginSource ''token'' world_no_pages source_phase"
  using loginSource_empty_is_fatal[OF getAllSubscriptions_no_pages, of "''token''" source_phase]
  by (simp add: source_phase_def alive_def)

text \<open>
  Claim C7. After \<open>startLogin\<close> has replaced the anti-forgery token by a fresh value
  (directly, or through the destination prompt), a callback that carries the previous
  value fails the state check and changes nothing; with a well-formed code its answer is
  the invalid-state message. Fresh means different from the previous value.
\<close>

theorem stale_state_rejected_after_regeneration:
  assumes "fresh \<noteq> oauthState s"
    and "state q = Single (oauthState s)"
  shows "state_rejected (state q) (oauthState (startLogin fresh s))
       \<and> snd (callback q e (startLogin fresh s)) = startLogin fresh s
       \<and> fst (callback q e (startLogin fresh s))
           = Body (if code_rejected (code q) then failed_login else invalid_state)
       \<and> snd (callback q e (promptDestinationLogin True fresh s))
           = promptDestinationLogin True fresh s
       \<and> fst (callback q e (promptDestinationLogin True fresh s))
           = Body (if code_rejected (code q) then failed_login else invalid_state)"
proof -
  have rej: "state_rejected (state q) fresh"
    using assms by (auto simp: state_rejected_def)
  have 1: "oauthState (startLogin fresh s) = fresh"
    by (simp add: startLogin_frame)
  have 2: "oauthState (promptDestinationLogin True fresh s) = fresh"
    by (simp add: promptDestinationLogin_def Let_def startLogin_frame)
  have "callback q e s' = (Body (if code_rejected (code q) then failed_login else invalid_state), s')"
    if "oauthState s' = fresh" for s'
    using rej that by (simp add: callback_code_rejected callback_state_rejected)
  from this[OF 1] this[OF 2] rej 1 show ?thesis by simp
qed

theorem stale_state_rejected_after_regeneration_witness:
  "callback source_request world (startLogin ''state-2'' source_phase)
     = (Body invalid_state, startLogin ''state-2'' source_phase)
   \<and> callback source_request world (promptDestinationLogin True ''state-2'' source_phase)
     = (Body invalid_state, promptDestinationLogin True ''state-2'' source_phase)"
proof -
  have 1: "''state-2'' \<noteq> oauthState source_phase" by (simp add: source_phase_def)
  have 2: "state source_request = Single (oauthState source_phase)"
    by (simp add: source_phase_def source_request_def)
  have 3: "\<not> code_rejected (code source_request)"
    by (simp add: code_rejected_def source_request_def)
  from stale_state_rejected_after_regeneration[OF 1 2, of world] 3
  show ?thesis by (simp add: prod_eq_iff)
qed

text \<open>
  Claim C9. A successful page whose body has no \<open>items\<close> contributes one \<open>undefined\<close>
  entry to the result of \<open>getAllSubscriptions\<close>, at the place of the page. On a list with
  such an entry, \<open>loginDestination\<close> is rejected with a TypeError when \<open>subscribeChannel\<close>
  reads \<open>resourceId\<close>: it logs no line per subscription and no \<open>Done!\<close>, and it does not
  call \<open>process.exit\<close>.
\<close>

theorem missing_items_append_undefined:
  assumes "net n = Resolved r" and "ok r" and "json r = Some b" and "items b = None"
  shows "fetch_pages tok net n nextPage subs tr =
           (if truthy (nextPageToken b)
            then fetch_pages tok net (Suc n) (nextPageToken b) (subs @ [None])
                   (tr @ [HttpGet (subscriptions_url nextPage) tok])
            else Some (Returned (subs @ [None]), tr @ [HttpGet (subscriptions_url nextPage) tok]))
       \<and> (\<forall>before after.
              n = length before
              \<and> serves net 0 (before @ b # after)
              \<and> list_all (\<lambda>q. truthy (nextPageToken q)) (butlast (before @ b # after))
              \<and> \<not> truthy (nextPageToken (last (before @ b # after))) \<longrightarrow>
              map_option fst (getAllSubscriptions tok net) =
                Some (Returned (concat (map page_snippets before) @ None
                                  # concat (map page_snippets after))))
       \<and> (\<forall>s e a. None \<in> set (subscriptions s) \<longrightarrow>
              unhandled (loginDestination a e s) = unhandled s @ [TypeError]
            \<and> exited (loginDestination a e s) = exited s
            \<and> trace (loginDestination a e s) =
                trace s @ destination_banner (length (subscriptions s))
                  @ sent_requests a (subscriptions s))"
proof -
  have snip: "page_snippets b = [None]"
    using assms(4) by (rule page_snippets_no_items)
  have step: "fetch_pages tok net n nextPage subs tr =
           (if truthy (nextPageToken b)
            then fetch_pages tok net (Suc n) (nextPageToken b) (subs @ [None])
                   (tr @ [HttpGet (subscriptions_url nextPage) tok])
            else Some (Returned (subs @ [None]), tr @ [HttpGet (subscriptions_url nextPage) tok]))"
  proof (cases "truthy (nextPageToken b)")
    case True
    have "fetch_pages tok net n nextPage subs tr =
          fetch_pages tok net (Suc n) (nextPageToken b) (subs @ page_snippets b)
            (tr @ [HttpGet (subscriptions_url nextPage) tok])"
      using assms(1,2,3) True by (rule fetch_pages_continue)
    with True snip show ?thesis by simp
  next
    case False
    have "fetch_pages tok net n nextPage subs tr =
          Some (Returned (subs @ page_snippets b),
                tr @ [HttpGet (subscriptions_url nextPage) tok])"
      using assms(1,2,3) False by (rule fetch_pages_last)
    with False snip show ?thesis by simp
  qed
  have whole: "map_option fst (getAllSubscriptions tok net) =
                Some (Returned (concat (map page_snippets before) @ None
                                  # concat (map page_snippets after)))"
    if s: "serves net 0 (before @ b # after)"
      and t: "list_all (\<lambda>q. truthy (nextPageToken q)) (butlast (before @ b # after))"
      and l: "\<not> truthy (nextPageToken (last (before @ b # after)))"
    for before after
  proof -
    let ?ps = "before @ b # after"
    have "?ps \<noteq> []" by simp
    then have split: "?ps = butlast ?ps @ [last ?ps]"
      by (rule append_butlast_last_id[symmetric])
    have 1: "serves net 0 (butlast ?ps @ [last ?ps])"
      using s by (simp only: split[symmetric])
    have 2: "\<forall>q\<in>set (butlast ?ps). truthy (nextPageToken q)"
      using t by (simp only: list_all_iff)
    have "getAllSubscriptions tok net =
          Some (Returned (concat (map page_snippets (butlast ?ps @ [last ?ps]))),
                page_requests tok (None # map nextPageToken (butlast ?ps)))"
      using 1 2 l by (rule getAllSubscriptions_pages)
    also have "concat (map page_snippets (butlast ?ps @ [last ?ps])) = concat (map page_snippets ?ps)"
      by (simp only: split[symmetric])
    also have "concat (map page_snippets ?ps) =
               concat (map page_snippets before) @ None # concat (map page_snippets after)"
      by (simp add: snip)
    finally show ?thesis by simp
  qed
  have thrown: "unhandled (loginDestination a e s) = unhandled s @ [TypeError]
            \<and> exited (loginDestination a e s) = exited s
            \<and> trace (loginDestination a e s) =
                trace s @ destination_banner (length (subscriptions s))
                  @ sent_requests a (subscriptions s)"
    if "None \<in> set (subscriptions s)" for s e a
    using loginDestination_undefined[OF that, of a e] by simp
  show ?thesis
    by (intro conjI allI impI step thrown) (elim conjE, rule whole)
qed

theorem missing_items_append_undefined_witness:
  "getAllSubscriptions ''token'' page_without_items =
     Some (Returned [None], [HttpGet (subscriptions_url None) ''token''])
   \<and> unhandled (loginDestination ''token'' world (destination_phase [None])) = [TypeError]
   \<and> exited (loginDestination ''token'' world (destination_phase [None])) = None"
proof -
  let ?b = "\<lparr>nextPageToken = None, items = None\<rparr>"
  let ?r = "\<lparr>ok = True, status = 200, json = Some ?b\<rparr>"
  have 1: "page_without_items 0 = Resolved ?r" by (simp add: page_without_items_def)
  have 2: "ok ?r" by simp
  have 3: "json ?r = Some ?b" by simp
  have 4: "items ?b = None" by simp
  have t: "fetch_pages ''token'' page_without_items 0 None [] [] =
           (if truthy (nextPageToken ?b)
            then fetch_pages ''token'' page_without_items (Suc 0) (nextPageToken ?b) ([] @ [None])
                   ([] @ [HttpGet (subscriptions_url None) ''token''])
            else Some (Returned ([] @ [None]), [] @ [HttpGet (subscriptions_url None) ''token'']))
       \<and> (\<forall>before after.
              0 = length before
              \<and> serves page_without_items 0 (before @ ?b # after)
              \<and> list_all (\<lambda>q. truthy (nextPageToken q)) (butlast (before @ ?b # after))
              \<and> \<not> truthy (nextPageToken (last (before @ ?b # after))) \<longrightarrow>
              map_option fst (getAllSubscriptions ''token'' page_without_items) =
                Some (Returned (concat (map page_snippets before) @ None
                                  # concat (map page_snippets after))))
       \<and> (\<forall>s e a. None \<in> set (subscriptions s) \<longrightarrow>
              unhandled (loginDestination a e s) = unhandled s @ [TypeError]
            \<and> exited (loginDestination a e s) = exited s
            \<and> trace (loginDestination a e s) =
                trace s @ destination_banner (length (subscriptions s))
                  @ sent_requests a (subscriptions s))"
    using 1 2 3 4 by (rule missing_items_append_undefined)
  have n: "None \<in> set (subscriptions (destination_phase [None]))"
    by (simp add: destination_phase_def)
  from t[THEN conjunct1]
       t[THEN conjunct2, THEN conjunct2, rule_format, OF n, of "''token''" world]
  show ?thesis
    by (simp add: getAllSubscriptions_def truthy_def destination_phase_def)
qed

lemma getAllSubscriptions_page_without_items:
  "getAllSubscriptions tok page_without_items =
   Some (Returned [None], [HttpGet (subscriptions_url None) tok])"
proof -
  let ?b = "\<lparr>nextPageToken = None, items = None\<rparr>"
  have "fetch_pages tok page_without_items 0 None [] [] =
        Some (Returned ([] @ page_snippets ?b), [] @ [HttpGet (subscriptions_url None) tok])"
    by (rule fetch_pages_last[where r = "\<lparr>ok = True, status = 200, json = Some ?b\<rparr>"])
       (simp_all add: page_without_items_def truthy_def)
  then show ?thesis
    by (simp add: getAllSubscriptions_def page_snippets_no_items)
qed

text \<open>
  The entry of claim C9 does reach the Replicator: with a source account whose only page
  has no \<open>items\<close>, the source phase collects one \<open>undefined\<close> entry, which is not the
  empty sequence, moves on to the destination phase, and the destination callback ends
  in the TypeError.
\<close>

lemma undefined_entry_reaches_replicator:
  "subscriptions (snd (callback source_request world_without_items source_phase)) = [None]"
  "applicationState (snd (callback source_request world_without_items source_phase))
     = login_destination"
  "exited (snd (callback source_request world_without_items source_phase)) = None"
  "unhandled (snd (callback destination_request world
                     (snd (callback source_request world_without_items source_phase))))
     = [TypeError]"
  "exited (snd (callback destination_request world
                  (snd (callback source_request world_without_items source_phase))))
     = None"
proof -
  let ?s1 = "snd (callback source_request world_without_items source_phase)"
  let ?r = "\<lparr>ok = True, status = 200, json = Some \<lparr>access_token = Some ''token''\<rparr>\<rparr>"
  have w: "token_response world_without_items = Resolved ?r"
    "page_responses world_without_items = page_without_items"
    "confirm_destination world_without_items" "fresh_uuid world_without_items = ''state-2''"
    by (simp_all add: world_without_items_def world_def granted_def)
  have "callback source_request world_without_items source_phase =
    (Body check_terminal,
     (case applicationState source_phase of
        login_source \<Rightarrow> loginSource ''token'' world_without_items
           (log_to [HttpPostToken (token_link (config source_phase) ''code-1'')] source_phase)
      | login_destination \<Rightarrow> loginDestination ''token'' world_without_items
           (log_to [HttpPostToken (token_link (config source_phase) ''code-1'')] source_phase)))"
    by (rule callback_accepted[where r = ?r and b = "\<lparr>access_token = Some ''token''\<rparr>"])
       (simp_all add: source_request_def source_phase_def state_rejected_def w)
  then have s1: "?s1 =
        startLogin ''state-2''
          ((log_to ([HttpPostToken (token_link (config source_phase) ''code-1'')] @ source_banner
                    @ [HttpGet (subscriptions_url None) ''token'',
                       ConsoleLog (found_message 1), Prompt (destination_prompt 1)]) source_phase)
             \<lparr>subscriptions := [None], applicationState := login_destination\<rparr>)"
    by (simp add: loginSource_def getAllSubscriptions_page_without_items w Let_def
          promptDestinationLogin_def log_to_def startLogin_def source_phase_def)
  then show a: "subscriptions ?s1 = [None]" "applicationState ?s1 = login_destination"
    "exited ?s1 = None"
    by (simp_all add: startLogin_frame source_phase_def)
  have o: "oauthState ?s1 = ''state-2''"
    by (simp add: s1 startLogin_frame)
  have u: "unhandled ?s1 = []"
    by (subst s1) (simp add: startLogin_def source_phase_def)
  have "callback destination_request world ?s1 =
    (Body check_terminal,
     (case applicationState ?s1 of
        login_source \<Rightarrow> loginSource ''token'' world
           (log_to [HttpPostToken (token_link (config ?s1) ''code-2'')] ?s1)
      | login_destination \<Rightarrow> loginDestination ''token'' world
           (log_to [HttpPostToken (token_link (config ?s1) ''code-2'')] ?s1)))"
    by (rule callback_accepted[where r = ?r and b = "\<lparr>access_token = Some ''token''\<rparr>"])
       (simp_all add: destination_request_def o state_rejected_def world_def granted_def)
  then have d: "snd (callback destination_request world ?s1) =
        loginDestination ''token'' world
           (log_to [HttpPostToken (token_link (config ?s1) ''code-2'')] ?s1)"
    by (simp add: a(2))
  have n: "None \<in> set (subscriptions (log_to [HttpPostToken (token_link (config ?s1) ''code-2'')] ?s1))"
    by (simp add: a(1))
  show "unhandled (snd (callback destination_request world ?s1)) = [TypeError]"
    "exited (snd (callback destination_request world ?s1)) = None"
    unfolding d loginDestination_undefined[OF n]
    by (simp_all add: a(3) u)
qed

text \<open>
  Claim C10, as stated, fails: the code is checked first. A callback without a code
  whose \<open>state\<close> is given twice gets the generic failure message, not the invalid-state
  one.
\<close>

theorem repeated_state_without_code_gets_generic_failure:
  "fst (callback repeated_state_request world (destination_phase [Some channel_a]))
     = Body failed_login
   \<and> Body failed_login \<noteq> Body invalid_state"
  by (simp add: callback_def repeated_state_request_def code_rejected_def failed_login_def
        invalid_state_def)

text \<open>
  Claim C10, amended. A callback whose \<open>state\<close> parameter is given more than once is
  always rejected and changes nothing, whatever the repeated values are; its answer is
  the invalid-state message when the code is a single non-empty string, and the generic
  failure message otherwise.
\<close>

theorem repeated_state_rejected:
  assumes "state q = Repeated xs"
  shows "snd (callback q e s) = s
       \<and> fst (callback q e s)
           = Body (if code_rejected (code q) then failed_login else invalid_state)"
proof -
  have "state_rejected (state q) (oauthState s)"
    using assms by (simp add: state_rejected_def)
  then show ?thesis
    by (simp add: callback_code_rejected callback_state_rejected)
qed

theorem repeated_state_rejected_witness:
  "callback \<lparr>code = Single ''code-2'', state = Repeated [''state-2'', ''state-2'']\<rparr> world
     (destination_phase [Some channel_a])
   = (Body invalid_state, destination_phase [Some channel_a])"
  using repeated_state_rejected
          [of "\<lparr>code = Single ''code-2'', state = Repeated [''state-2'', ''state-2'']\<rparr>"
              "[''state-2'', ''state-2'']" world "destination_phase [Some channel_a]"]
  by (simp add: prod_eq_iff code_rejected_def)

section \<open>Properties of the process with its suspended calls\<close>

lemma steps_dead: "\<not> alive (vars p) \<Longrightarrow> steps p evs = p"
  by (induction evs arbitrary: p) (simp_all add: step_def)

lemma alive_before: "alive (vars (steps p evs)) \<Longrightarrow> alive (vars p)"
  by (cases "alive (vars p)") (simp_all add: steps_dead)

lemma steps_append: "steps p (evs @ evs') = steps (steps p evs) evs'"
  by (induction evs arbitrary: p) simp_all

lemma task_at_in_set: "task_at p k = t \<Longrightarrow> t \<noteq> Finished \<Longrightarrow> t \<in> set (suspended p)"
  by (auto simp: task_at_def split: if_splits)

lemma collecting_iff: "collecting p \<longleftrightarrow> (\<exists>a. Collecting a \<in> set (suspended p))"
  by (auto simp: collecting_def list_ex_iff split: task.splits) (metis task.exhaust)

lemma confirming_iff: "confirming p \<longleftrightarrow> Confirming \<in> set (suspended p)"
  by (auto simp: confirming_def list_ex_iff split: task.splits) (metis task.exhaust)

lemma in_set_update: "x \<in> set (xs[k := t]) \<Longrightarrow> x = t \<or> x \<in> set xs"
  using set_update_subset_insert[of xs k t] by auto

lemma startLogin_fields [simp]:
  "subscriptions (startLogin fresh s) = subscriptions s"
  "applicationState (startLogin fresh s) = applicationState s"
  "oauthState (startLogin fresh s) = fresh"
  "exited (startLogin fresh s) = exited s"
  "unhandled (startLogin fresh s) = unhandled s"
  "config (startLogin fresh s) = config s"
  "trace (startLogin fresh s) = trace s @ [OpenBrowser (authorization_link (config s) fresh)]"
  by (simp_all add: startLogin_def)

lemma begin_replication_result:
  assumes "begin_replication tok s = (s2, t)"
  shows "subscriptions s2 = subscriptions s"
    and "applicationState s2 = applicationState s"
    and "oauthState s2 = oauthState s"
    and "config s2 = config s"
    and "t = Finished \<or> (\<exists>ps. t = Subscribing ps)"
  using assms by (auto simp: begin_replication_def Let_def split: list.splits if_splits)

lemma on_token_frame:
  "subscriptions (vars (snd (on_token k fr p))) = subscriptions (vars p)"
  "applicationState (vars (snd (on_token k fr p))) = applicationState (vars p)"
  "oauthState (vars (snd (on_token k fr p))) = oauthState (vars p)"
  by (auto simp: on_token_def Let_def
      split: prod.splits outcome.splits option.splits ApplicationState.splits
      dest: begin_replication_result)

lemma on_token_suspended:
  assumes "x \<in> set (suspended (snd (on_token k fr p)))"
  shows "x \<in> set (suspended p) \<or> x = Finished \<or> (\<exists>ps. x = Subscribing ps)
       \<or> ((\<exists>a. x = Collecting a) \<and> applicationState (vars p) = login_source)"
  using assms
  by (auto simp: on_token_def Let_def
      split: prod.splits outcome.splits option.splits ApplicationState.splits
      dest: begin_replication_result in_set_update)

text \<open>In the destination phase with no enumeration pending, an event leaves both as they are.\<close>

lemma step_destination:
  assumes "applicationState (vars p) = login_destination" and "\<not> collecting p"
  shows "applicationState (vars (snd (step ev p))) = login_destination
       \<and> subscriptions (vars (snd (step ev p))) = subscriptions (vars p)
       \<and> \<not> collecting (snd (step ev p))"
proof (cases "alive (vars p)")
  case False
  with assms show ?thesis by (simp add: step_def)
next
  case True
  show ?thesis
  proof (cases ev)
    case (Request q)
    with True assms show ?thesis
      by (auto simp: step_def on_request_def Let_def collecting_iff split: query_value.splits)
  next
    case (TokenAnswer k fr)
    show ?thesis
    proof (cases "task_at p k")
      case (Exchanging c)
      have "\<not> collecting (snd (on_token k fr p))"
        using assms on_token_suspended[of _ k fr p] by (auto simp: collecting_iff)
      with True assms TokenAnswer Exchanging show ?thesis
        by (simp add: step_def on_token_frame)
    qed (use True assms TokenAnswer in \<open>simp_all add: step_def\<close>)
  next
    case (EnumerationEnds k net)
    show ?thesis
    proof (cases "task_at p k")
      case (Collecting a)
      then have "Collecting a \<in> set (suspended p)" by (rule task_at_in_set) simp
      with assms(2) show ?thesis by (simp add: collecting_iff)
    qed (use True assms EnumerationEnds in \<open>simp_all add: step_def\<close>)
  next
    case (PromptAnswer k login fresh)
    show ?thesis
    proof (cases "task_at p k")
      case Confirming
      with True assms PromptAnswer show ?thesis
        by (auto simp: step_def on_prompt_def Let_def collecting_iff dest: in_set_update)
    qed (use True assms PromptAnswer in \<open>simp_all add: step_def\<close>)
  next
    case (CreateAnswer k i fr)
    show ?thesis
    proof (cases "task_at p k")
      case (Subscribing ps)
      with True assms CreateAnswer show ?thesis
        by (auto simp: step_def on_create_def Let_def collecting_iff
            split: option.splits fetched.splits dest: in_set_update)
    qed (use True assms CreateAnswer in \<open>simp_all add: step_def\<close>)
  qed
qed


lemma steps_destination:
  assumes "applicationState (vars p) = login_destination" and "\<not> collecting p"
  shows "applicationState (vars (steps p evs)) = login_destination
       \<and> subscriptions (vars (steps p evs)) = subscriptions (vars p)
       \<and> \<not> collecting (steps p evs)"
  using assms
proof (induction evs arbitrary: p)
  case Nil
  then show ?case by simp
next
  case (Cons ev evs)
  from step_destination[OF Cons.prems, of ev] Cons.IH[of "snd (step ev p)"]
  show ?case by simp
qed

text \<open>
  Whenever the destination prompt is showing or the phase is the destination phase, the
  variable holds a non-empty sequence that an enumeration returned.
\<close>

lemma linked_step:
  assumes "linked p"
  shows "linked (snd (step ev p))"
proof (cases "alive (vars p)")
  case False
  with assms show ?thesis by (simp add: step_def)
next
  case True
  show ?thesis
  proof (cases ev)
    case (Request q)
    with True assms show ?thesis
      by (auto simp: linked_def alive_def step_def on_request_def Let_def confirming_iff
          split: query_value.splits)
  next
    case (TokenAnswer k fr)
    show ?thesis
    proof (cases "task_at p k")
      case (Exchanging c)
      have "confirming (snd (on_token k fr p)) \<Longrightarrow> confirming p"
        using on_token_suspended[of Confirming k fr p] by (auto simp: confirming_iff)
      with True assms TokenAnswer Exchanging show ?thesis
        by (auto simp: linked_def step_def on_token_frame)
    qed (use True assms TokenAnswer in \<open>simp_all add: step_def\<close>)
  next
    case (EnumerationEnds k net)
    show ?thesis
    proof (cases "task_at p k")
      case (Collecting a)
      with True assms EnumerationEnds show ?thesis
        by (auto simp: linked_def alive_def step_def on_enumeration_def Let_def enumerated_def
            split: option.splits prod.splits outcome.splits)
    qed (use True assms EnumerationEnds in \<open>simp_all add: step_def\<close>)
  next
    case (PromptAnswer k login fresh)
    show ?thesis
    proof (cases "task_at p k")
      case Confirming
      then have "confirming p"
        using task_at_in_set[of p k Confirming] by (simp add: confirming_iff)
      with True assms PromptAnswer Confirming show ?thesis
        by (auto simp: linked_def alive_def step_def on_prompt_def Let_def)
    qed (use True assms PromptAnswer in \<open>simp_all add: step_def\<close>)
  next
    case (CreateAnswer k i fr)
    show ?thesis
    proof (cases "task_at p k")
      case (Subscribing ps)
      with True assms CreateAnswer show ?thesis
        by (auto simp: linked_def alive_def step_def on_create_def Let_def confirming_iff
            split: option.splits fetched.splits dest: in_set_update)
    qed (use True assms CreateAnswer in \<open>simp_all add: step_def\<close>)
  qed
qed

lemma linked_steps: "linked p \<Longrightarrow> linked (steps p evs)"
  by (induction evs arbitrary: p) (simp_all add: linked_step)

lemma linked_boot: "applicationState s = login_source \<Longrightarrow> linked (boot s)"
  by (simp add: linked_def boot_def confirming_def)

text \<open>Only the answer to the destination prompt changes the phase.\<close>

lemma step_changes_phase:
  assumes "applicationState (vars p) = login_source"
    and "applicationState (vars (snd (step ev p))) = login_destination"
  shows "confirming p \<and> alive (vars p)
       \<and> subscriptions (vars (snd (step ev p))) = subscriptions (vars p)"
proof (cases "alive (vars p)")
  case False
  with assms show ?thesis by (simp add: step_def)
next
  case True
  show ?thesis
  proof (cases ev)
    case (Request q)
    with True assms show ?thesis
      by (auto simp: step_def on_request_def Let_def split: query_value.splits if_splits)
  next
    case (TokenAnswer k fr)
    with True assms show ?thesis
      by (cases "task_at p k") (simp_all add: step_def on_token_frame)
  next
    case (EnumerationEnds k net)
    with True assms show ?thesis
      by (cases "task_at p k")
        (auto simp: step_def on_enumeration_def Let_def
          split: option.splits prod.splits outcome.splits if_splits)
  next
    case (PromptAnswer k login fresh)
    show ?thesis
    proof (cases "task_at p k")
      case Confirming
      then have "confirming p"
        using task_at_in_set[of p k Confirming] by (simp add: confirming_iff)
      with True assms PromptAnswer Confirming show ?thesis
        by (auto simp: step_def on_prompt_def Let_def split: if_splits)
    qed (use True assms PromptAnswer in \<open>simp_all add: step_def\<close>)
  next
    case (CreateAnswer k i fr)
    with True assms show ?thesis
      by (cases "task_at p k")
        (auto simp: step_def on_create_def Let_def
          split: option.splits fetched.splits if_splits)
  qed
qed

text \<open>The requests \<open>loginDestination\<close> sends, one for each entry that is not \<open>undefined\<close>.\<close>

lemma sent_requests_explicit:
  "sent_requests tok subs =
   concat (map (\<lambda>sub. case sub of None \<Rightarrow> []
                       | Some x \<Rightarrow> [HttpPostSubscription create_url tok (resourceId x)]) subs)"
  by (induction subs) (simp_all add: sent_requests_def subscribeChannel_def split: option.splits)

lemma waiting_empty:
  assumes "thrown tok subs = []" and "waiting subs = []"
  shows "subs = []"
proof -
  have "None \<notin> set subs"
    using thrown_undefined[of subs tok] assms(1) by auto
  then have "\<forall>x\<in>set subs. \<exists>y. x = Some y" by (metis option.exhaust)
  then obtain xs where "subs = map Some xs"
    by (metis ex_map_conv)
  with assms(2) show ?thesis by (simp add: waiting_defined)
qed

lemma begin_replication_trace:
  assumes "subscriptions s \<noteq> []"
  shows "trace (fst (begin_replication tok s)) =
         trace s @ destination_banner (length (subscriptions s))
                 @ sent_requests tok (subscriptions s)"
  using assms waiting_empty[of tok "subscriptions s"]
  by (auto simp: begin_replication_def Let_def split: list.splits)

lemma received_token_granted:
  assumes "fr = Resolved r" "ok r" "json r = Some b" "access_token b = Some tok" "tok \<noteq> []"
  shows "received_token fr = (Returned (Some tok), [])"
  using assms by (simp add: received_token_def truthy_def)

lemma log_to_nothing [simp]: "log_to [] s = s"
  by (simp add: log_to_def)

lemma on_token_destination:
  assumes "applicationState (vars p) = login_destination"
    and "received_token fr = (Returned (Some tok), [])"
  shows "on_token k fr p =
         (Some (Body check_terminal),
          p\<lparr>vars := fst (begin_replication tok (vars p)),
            suspended := (suspended p)[k := Finished] @ [snd (begin_replication tok (vars p))]\<rparr>)"
  using assms by (simp add: on_token_def Let_def split: prod.splits)


lemma getAllSubscriptions_one_page_b:
  "getAllSubscriptions tok one_page_b =
   Some (Returned [Some channel_b], [HttpGet (subscriptions_url None) tok])"
proof -
  let ?b = "page None [item_b]"
  have "fetch_pages tok one_page_b 0 None [] [] =
        Some (Returned ([] @ page_snippets ?b), [] @ [HttpGet (subscriptions_url None) tok])"
    by (rule fetch_pages_last[where r = "\<lparr>ok = True, status = 200, json = Some ?b\<rparr>"])
       (simp_all add: one_page_b_def truthy_def page_def)
  then show ?thesis
    by (simp add: getAllSubscriptions_def page_snippets_page item_b_def)
qed

lemmas run_events =
  step_def on_request_def on_token_def on_enumeration_def on_prompt_def task_at_def alive_def
  boot_def source_phase_def source_request_def destination_request_def granted_def
  received_token_def truthy_def code_rejected_def state_rejected_def
  getAllSubscriptions_two_pages getAllSubscriptions_one_page_b startLogin_def Let_def
  confirmation_def repeated_state_request_def

lemma one_callback_state:
  "applicationState (vars (steps (boot source_phase) one_callback)) = login_source"
  "subscriptions (vars (steps (boot source_phase) one_callback)) = [Some channel_a, Some channel_b]"
  "suspended (steps (boot source_phase) one_callback) = [Finished, Confirming]"
  "oauthState (vars (steps (boot source_phase) one_callback)) = ''state-1''"
  "exited (vars (steps (boot source_phase) one_callback)) = None"
  "unhandled (vars (steps (boot source_phase) one_callback)) = []"
  "config (vars (steps (boot source_phase) one_callback)) = example_config"
  by (simp_all add: one_callback_def run_events)

lemma two_callbacks_state:
  "applicationState (vars (steps (boot source_phase) two_callbacks)) = login_source"
  "subscriptions (vars (steps (boot source_phase) two_callbacks)) = [Some channel_a, Some channel_b]"
  "suspended (steps (boot source_phase) two_callbacks)
     = [Finished, Confirming, Finished, Collecting ''token'']"
  "oauthState (vars (steps (boot source_phase) two_callbacks)) = ''state-1''"
  "exited (vars (steps (boot source_phase) two_callbacks)) = None"
  "unhandled (vars (steps (boot source_phase) two_callbacks)) = []"
  "config (vars (steps (boot source_phase) two_callbacks)) = example_config"
  by (simp_all add: two_callbacks_def run_events)


lemma late_enumeration_state:
  "applicationState (vars (steps (boot source_phase) late_enumeration)) = login_destination"
  "subscriptions (vars (steps (boot source_phase) late_enumeration)) = [Some channel_b]"
  "suspended (steps (boot source_phase) late_enumeration)
     = [Finished, Finished, Finished, Confirming, Exchanging ''code-2'']"
  "exited (vars (steps (boot source_phase) late_enumeration)) = None"
  "unhandled (vars (steps (boot source_phase) late_enumeration)) = []"
  by (simp_all add: late_enumeration_def two_callbacks_def run_events)

lemma awaiting_token_state:
  "applicationState (vars awaiting_token) = login_destination"
  "subscriptions (vars awaiting_token) = [Some channel_a, Some channel_b]"
  "suspended awaiting_token = [Finished, Finished, Exchanging ''code-2'']"
  "exited (vars awaiting_token) = None"
  "unhandled (vars awaiting_token) = []"
  by (simp_all add: awaiting_token_def one_callback_def run_events)

section \<open>The claim about the subscriptions the Replicator uses\<close>

text \<open>
  Claim C8, as stated, fails. Two callbacks of the source phase are accepted one after the
  other (the state token changes only when the destination prompt is answered). The
  enumeration of the first ends with the channels A and B, the user confirms, and the
  phase is the destination phase with A and B in the variable. Then the enumeration of
  the second callback ends with channel B alone and is assigned to the variable. The
  callback of the destination phase that follows makes \<open>loginDestination\<close> send one
  request, for B.
\<close>

theorem late_enumeration_replaces_subscriptions:
  "applicationState (vars (steps (boot source_phase) two_callbacks)) = login_source
   \<and> subscriptions (vars (steps (boot source_phase) two_callbacks))
       = [Some channel_a, Some channel_b]
   \<and> applicationState (vars (snd (step confirmation (steps (boot source_phase) two_callbacks))))
       = login_destination
   \<and> subscriptions (vars (snd (step confirmation (steps (boot source_phase) two_callbacks))))
       = [Some channel_a, Some channel_b]
   \<and> alive (vars (steps (boot source_phase) late_enumeration))
   \<and> task_at (steps (boot source_phase) late_enumeration) 4 = Exchanging ''code-2''
   \<and> subscriptions (vars (steps (boot source_phase) late_enumeration)) = [Some channel_b]
   \<and> step (TokenAnswer 4 (granted ''token'')) (steps (boot source_phase) late_enumeration)
       = (Some (Body check_terminal),
          \<lparr>vars = log_to (destination_banner 1
                            @ [HttpPostSubscription create_url ''token'' (resourceId channel_b)])
                     (vars (steps (boot source_phase) late_enumeration)),
           suspended = [Finished, Finished, Finished, Confirming, Finished,
                        Subscribing [(0, channel_b)]]\<rparr>)"
proof -
  let ?p0 = "steps (boot source_phase) two_callbacks"
  let ?p2 = "steps (boot source_phase) late_enumeration"
  have 1: "applicationState (vars ?p0) = login_source"
    and 2: "subscriptions (vars ?p0) = [Some channel_a, Some channel_b]"
    by (rule two_callbacks_state)+
  have 3: "applicationState (vars (snd (step confirmation ?p0))) = login_destination"
    and 4: "subscriptions (vars (snd (step confirmation ?p0))) = [Some channel_a, Some channel_b]"
    by (simp_all add: step_def on_prompt_def confirmation_def task_at_def alive_def
        two_callbacks_state)
  have 5: "alive (vars ?p2)"
    by (simp add: alive_def late_enumeration_state)
  have 6: "task_at ?p2 4 = Exchanging ''code-2''"
    by (simp add: task_at_def late_enumeration_state)
  have 7: "subscriptions (vars ?p2) = [Some channel_b]"
    by (rule late_enumeration_state)
  have rt: "received_token (granted ''token'') = (Returned (Some ''token''), [])"
    by (simp add: received_token_def granted_def truthy_def)
  have br: "begin_replication ''token'' (vars ?p2) =
            (log_to (destination_banner 1
                       @ [HttpPostSubscription create_url ''token'' (resourceId channel_b)])
                    (vars ?p2),
             Subscribing [(0, channel_b)])"
    by (simp add: begin_replication_def Let_def late_enumeration_state thrown_def
        sent_requests_def waiting_def subscribeChannel_def)
  have 8: "step (TokenAnswer 4 (granted ''token'')) ?p2
       = (Some (Body check_terminal),
          \<lparr>vars = log_to (destination_banner 1
                            @ [HttpPostSubscription create_url ''token'' (resourceId channel_b)])
                     (vars ?p2),
           suspended = [Finished, Finished, Finished, Confirming, Finished,
                        Subscribing [(0, channel_b)]]\<rparr>)"
    using 5 6 by (simp add: step_def on_token_destination[OF late_enumeration_state(1) rt] br
        late_enumeration_state)
  show ?thesis
    by (intro conjI 1 2 3 4 5 6 7 8)
qed

text \<open>
  Claim C8, amended. Let the process start in the source phase and let any events
  follow, callbacks and continuations of suspended calls in any order. Let one event
  move the phase from the source phase (\<open>p0\<close>) to the destination phase (\<open>p1\<close>) while no
  enumeration is pending, let any events follow (\<open>p2\<close>), and let the token endpoint then
  grant a token to a handler that is suspended at its exchange while the process is still
  running. Then: the change of phase leaves the subscriptions as they are; they are not
  empty and are what an enumeration returned; they are still the subscriptions at \<open>p2\<close>;
  the handler answers with the success page and is finished, and what the event adds to
  the effects is the two lines of \<open>loginDestination\<close> followed by one creation request,
  with the granted token, for each entry of that sequence that is not \<open>undefined\<close>, in
  the order of the sequence; \<open>loginDestination\<close> was entered exactly once by the event;
  and the subscriptions are the same afterwards.
\<close>

theorem replicator_uses_captured_subscriptions:
  assumes "applicationState s = login_source"
    and "p0 = steps (boot s) evs0"
    and "applicationState (vars p0) = login_source"
    and "p1 = snd (step ev p0)"
    and "applicationState (vars p1) = login_destination"
    and "\<not> collecting p1"
    and "p2 = steps p1 evs"
    and "alive (vars p2)"
    and "task_at p2 k = Exchanging c"
    and "fr = Resolved r" and "ok r" and "json r = Some b"
    and "access_token b = Some tok" and "tok \<noteq> []"
    and "p3 = snd (step (TokenAnswer k fr) p2)"
  shows "subscriptions (vars p1) = subscriptions (vars p0)
       \<and> subscriptions (vars p0) \<noteq> []
       \<and> (\<exists>tok0 net tr. getAllSubscriptions tok0 net
                          = Some (Returned (subscriptions (vars p0)), tr))
       \<and> subscriptions (vars p2) = subscriptions (vars p0)
       \<and> fst (step (TokenAnswer k fr) p2) = Some (Body check_terminal)
       \<and> task_at p3 k = Finished
       \<and> trace (vars p3) =
           trace (vars p2) @ destination_banner (length (subscriptions (vars p0)))
             @ concat (map (\<lambda>sub. case sub of
                                    None \<Rightarrow> []
                                  | Some x \<Rightarrow>
                                      [HttpPostSubscription create_url tok (resourceId x)])
                           (subscriptions (vars p0)))
       \<and> replicator_runs (trace (vars p3)) = replicator_runs (trace (vars p2)) + 1
       \<and> subscriptions (vars p3) = subscriptions (vars p0)"
proof -
  have "linked (steps (boot s) evs0)"
    using assms(1) by (intro linked_steps linked_boot)
  then have l0: "linked p0" by (simp add: assms(2))
  have ch: "confirming p0 \<and> alive (vars p0)
            \<and> subscriptions (vars (snd (step ev p0))) = subscriptions (vars p0)"
    using assms(3) assms(5)[unfolded assms(4)] by (rule step_changes_phase)
  have c1: "subscriptions (vars p1) = subscriptions (vars p0)"
    using ch by (simp add: assms(4))
  have en: "enumerated (subscriptions (vars p0))"
    using l0 ch by (simp add: linked_def)
  have c2: "subscriptions (vars p0) \<noteq> []"
    and c3: "\<exists>tok0 net tr. getAllSubscriptions tok0 net
                          = Some (Returned (subscriptions (vars p0)), tr)"
    using en by (simp_all add: enumerated_def)
  have frame: "applicationState (vars (steps p1 evs)) = login_destination
             \<and> subscriptions (vars (steps p1 evs)) = subscriptions (vars p1)
             \<and> \<not> collecting (steps p1 evs)"
    using assms(5,6) by (rule steps_destination)
  have dest: "applicationState (vars p2) = login_destination"
    and c4: "subscriptions (vars p2) = subscriptions (vars p0)"
    using frame c1 by (simp_all add: assms(7))
  have rt: "received_token fr = (Returned (Some tok), [])"
    using assms(10-14) by (rule received_token_granted)
  have st: "step (TokenAnswer k fr) p2 =
            (Some (Body check_terminal),
             p2\<lparr>vars := fst (begin_replication tok (vars p2)),
                suspended := (suspended p2)[k := Finished]
                               @ [snd (begin_replication tok (vars p2))]\<rparr>)"
    using assms(8,9) by (simp add: step_def on_token_destination[OF dest rt])
  have c5: "fst (step (TokenAnswer k fr) p2) = Some (Body check_terminal)"
    by (simp add: st)
  have k: "k < length (suspended p2)"
    using assms(9) by (auto simp: task_at_def split: if_splits)
  have c6: "task_at p3 k = Finished"
    using k by (simp add: assms(15) st task_at_def nth_append)
  have tr: "trace (vars p3) =
            trace (vars p2) @ destination_banner (length (subscriptions (vars p2)))
              @ sent_requests tok (subscriptions (vars p2))"
    using c2 c4 by (simp add: assms(15) st begin_replication_trace)
  have c7: "trace (vars p3) =
           trace (vars p2) @ destination_banner (length (subscriptions (vars p0)))
             @ concat (map (\<lambda>sub. case sub of
                                    None \<Rightarrow> []
                                  | Some x \<Rightarrow>
                                      [HttpPostSubscription create_url tok (resourceId x)])
                           (subscriptions (vars p0)))"
    using tr by (simp only: c4 sent_requests_explicit)
  have c8: "replicator_runs (trace (vars p3)) = replicator_runs (trace (vars p2)) + 1"
    by (simp add: tr replicator_runs_append replicator_runs_banner replicator_runs_requests)
  have c9: "subscriptions (vars p3) = subscriptions (vars p0)"
    using c4 by (simp add: assms(15) st begin_replication_result(1)[OF prod.collapse[symmetric]])
  show ?thesis
    by (intro conjI c1 c2 c3 c4 c5 c6 c7 c8 c9)
qed

theorem replicator_uses_captured_subscriptions_witness:
  "subscriptions (vars (steps (boot source_phase) one_callback))
     = [Some channel_a, Some channel_b]
   \<and> subscriptions (vars awaiting_token) = [Some channel_a, Some channel_b]
   \<and> fst (step (TokenAnswer 2 (granted ''token'')) awaiting_token) = Some (Body check_terminal)
   \<and> trace (vars (snd (step (TokenAnswer 2 (granted ''token'')) awaiting_token))) =
       trace (vars awaiting_token) @ destination_banner 2
         @ [HttpPostSubscription create_url ''token'' (resourceId channel_a),
            HttpPostSubscription create_url ''token'' (resourceId channel_b)]
   \<and> replicator_runs (trace (vars (snd (step (TokenAnswer 2 (granted ''token'')) awaiting_token))))
       = replicator_runs (trace (vars awaiting_token)) + 1
   \<and> subscriptions (vars (snd (step (TokenAnswer 2 (granted ''token'')) awaiting_token)))
       = [Some channel_a, Some channel_b]"
proof -
  let ?p0 = "steps (boot source_phase) one_callback"
  let ?p1 = "snd (step confirmation ?p0)"
  let ?r = "\<lparr>ok = True, status = 200, json = Some \<lparr>access_token = Some ''token''\<rparr>\<rparr>"
  have p1: "?p1 = ?p0\<lparr>vars := startLogin ''state-2''
                                  ((vars ?p0)\<lparr>applicationState := login_destination\<rparr>),
                      suspended := [Finished, Finished]\<rparr>"
    by (simp add: step_def on_prompt_def confirmation_def task_at_def alive_def
        one_callback_state)
  have 1: "applicationState source_phase = login_source" by (simp add: source_phase_def)
  have 3: "applicationState (vars ?p0) = login_source" by (rule one_callback_state)
  have 5: "applicationState (vars ?p1) = login_destination" by (simp add: p1)
  have 6: "\<not> collecting ?p1" by (simp add: p1 collecting_def)
  have 7: "awaiting_token = steps ?p1 [Request repeated_state_request, Request destination_request]"
    by (simp add: awaiting_token_def)
  have 8: "alive (vars awaiting_token)" by (simp add: alive_def awaiting_token_state)
  have 9: "task_at awaiting_token 2 = Exchanging ''code-2''"
    by (simp add: task_at_def awaiting_token_state)
  have 10: "granted ''token'' = Resolved ?r" by (simp add: granted_def)
  have 11: "ok ?r" by simp
  have 12: "json ?r = Some \<lparr>access_token = Some ''token''\<rparr>" by simp
  have 13: "access_token \<lparr>access_token = Some ''token''\<rparr> = Some ''token''" by simp
  have 14: "''token'' \<noteq> []" by simp
  note t = replicator_uses_captured_subscriptions[OF 1 refl 3 refl 5 6 7 8 9 10 11 12 13 14 refl]
  have s0: "subscriptions (vars ?p0) = [Some channel_a, Some channel_b]"
    by (rule one_callback_state)
  note c4 = t[THEN conjunct2, THEN conjunct2, THEN conjunct2, THEN conjunct1]
  note c5 = t[THEN conjunct2, THEN conjunct2, THEN conjunct2, THEN conjunct2, THEN conjunct1]
  note c7 = t[THEN conjunct2, THEN conjunct2, THEN conjunct2, THEN conjunct2, THEN conjunct2,
              THEN conjunct2, THEN conjunct1]
  note c8 = t[THEN conjunct2, THEN conjunct2, THEN conjunct2, THEN conjunct2, THEN conjunct2,
              THEN conjunct2, THEN conjunct2, THEN conjunct1]
  note c9 = t[THEN conjunct2, THEN conjunct2, THEN conjunct2, THEN conjunct2, THEN conjunct2,
              THEN conjunct2, THEN conjunct2, THEN conjunct2]
  have a4: "subscriptions (vars awaiting_token) = [Some channel_a, Some channel_b]"
    using c4 by (simp only: s0)
  have a7: "trace (vars (snd (step (TokenAnswer 2 (granted ''token'')) awaiting_token))) =
       trace (vars awaiting_token) @ destination_banner 2
         @ [HttpPostSubscription create_url ''token'' (resourceId channel_a),
            HttpPostSubscription create_url ''token'' (resourceId channel_b)]"
    using c7 by (simp add: s0 numeral_2_eq_2)
  have a9: "subscriptions (vars (snd (step (TokenAnswer 2 (granted ''token'')) awaiting_token)))
       = [Some channel_a, Some channel_b]"
    using c9 by (simp only: s0)
  show ?thesis
    by (intro conjI s0 a4 c5 a7 c8 a9)
qed

section \<open>The handler as a process without overlap\<close>

text \<open>
  \<open>callback\<close> is the process with suspended calls on a schedule without overlap: the
  request, the answer of the token endpoint, and then the continuations of the call that
  the handler started, with nothing in between.
\<close>

lemma exchange_as_events:
  "exchangeForAccessToken cfg c fr =
   (fst (received_token fr), HttpPostToken (token_link cfg c) # snd (received_token fr))"
  by (simp add: exchangeForAccessToken_def received_token_def Let_def
      split: fetched.splits option.splits)

lemma steps_not_subscribing:
  assumes "\<forall>ps. task_at p k \<noteq> Subscribing ps"
  shows "steps p (map (\<lambda>i. CreateAnswer k i (net i)) sched) = p"
  using assms by (induction sched) (auto simp: step_def split: task.splits)

text \<open>
  \<open>await_all\<close> is the sequence of the events in which the creation requests are answered,
  and \<open>loginDestination\<close> is \<open>begin_replication\<close> followed by these events.
\<close>

lemma await_all_as_events:
  assumes "alive s" and "k < length ts" and "ts ! k = Subscribing ps" and "ps \<noteq> []"
  shows "vars (steps \<lparr>vars = s, suspended = ts\<rparr> (map (\<lambda>i. CreateAnswer k i (net i)) sched)) =
         (case await_all net ps sched (trace s) of
            (AllFulfilled, tr) \<Rightarrow> s\<lparr>trace := tr @ [done_line], exited := Some 0\<rparr>
          | (StillWaiting, tr) \<Rightarrow> s\<lparr>trace := tr\<rparr>
          | (OneRejected err, tr) \<Rightarrow> s\<lparr>trace := tr, unhandled := unhandled s @ [err]\<rparr>)"
  using assms
proof (induction sched arbitrary: s ts ps)
  case Nil
  then obtain q qs where "ps = q # qs" by (cases ps) auto
  then show ?case by simp
next
  case (Cons i sched)
  obtain q qs where ps: "ps = q # qs" using Cons.prems(4) by (cases ps) auto
  let ?p = "\<lparr>vars = s, suspended = ts\<rparr>"
  have st: "snd (step (CreateAnswer k i (net i)) ?p) = on_create k ps i (net i) ?p"
    using Cons.prems by (simp add: step_def task_at_def)
  show ?case
  proof (cases "map_of ps i")
    case None
    then have "on_create k ps i (net i) ?p = ?p" by (simp add: on_create_def)
    with Cons.IH[OF Cons.prems] st None show ?thesis by (simp add: ps)
  next
    case (Some sub)
    show ?thesis
    proof (cases "net i")
      case Rejected
      have "on_create k ps i (net i) ?p =
            \<lparr>vars = s\<lparr>unhandled := unhandled s @ [FetchError]\<rparr>, suspended = ts[k := Finished]\<rparr>"
        using Some Rejected by (simp add: on_create_def)
      moreover have "\<not> alive (s\<lparr>unhandled := unhandled s @ [FetchError]\<rparr>)"
        by (simp add: alive_def)
      ultimately show ?thesis
        using st Some Rejected by (simp add: steps_dead ps)
    next
      case (Resolved response)
      let ?s1 = "log_to [notice (ok response) sub] s"
      let ?ps' = "filter (\<lambda>q. fst q \<noteq> i) ps"
      show ?thesis
      proof (cases "?ps' = []")
        case True
        have "on_create k ps i (net i) ?p =
              \<lparr>vars = ?s1\<lparr>trace := trace ?s1 @ [done_line], exited := Some 0\<rparr>,
               suspended = ts[k := Finished]\<rparr>"
          using Some Resolved True by (simp add: on_create_def Let_def)
        moreover have "\<not> alive (?s1\<lparr>trace := trace ?s1 @ [done_line], exited := Some 0\<rparr>)"
          by (simp add: alive_def)
        moreover have "await_all net ps (i # sched) (trace s) =
                       (AllFulfilled, trace s @ [notice (ok response) sub])"
          using Some Resolved True by (simp add: ps)
        ultimately show ?thesis
          using st by (simp add: steps_dead log_to_def)
      next
        case False
        have oc: "on_create k ps i (net i) ?p =
                  \<lparr>vars = ?s1, suspended = ts[k := Subscribing ?ps']\<rparr>"
          using Some Resolved False by (simp add: on_create_def Let_def)
        have aw: "await_all net ps (i # sched) (trace s) =
                  await_all net ?ps' sched (trace ?s1)"
          using Some Resolved by (simp add: ps log_to_def)
        have "alive ?s1" using Cons.prems(1) by (simp add: alive_def log_to_def)
        moreover have "k < length (ts[k := Subscribing ?ps'])" using Cons.prems(2) by simp
        moreover have "ts[k := Subscribing ?ps'] ! k = Subscribing ?ps'"
          using Cons.prems(2) by simp
        ultimately have "vars (steps \<lparr>vars = ?s1, suspended = ts[k := Subscribing ?ps']\<rparr>
                                 (map (\<lambda>i. CreateAnswer k i (net i)) sched)) =
            (case await_all net ?ps' sched (trace ?s1) of
               (AllFulfilled, tr) \<Rightarrow> ?s1\<lparr>trace := tr @ [done_line], exited := Some 0\<rparr>
             | (StillWaiting, tr) \<Rightarrow> ?s1\<lparr>trace := tr\<rparr>
             | (OneRejected err, tr) \<Rightarrow> ?s1\<lparr>trace := tr, unhandled := unhandled ?s1 @ [err]\<rparr>)"
          using False by (rule Cons.IH)
        then show ?thesis
          using st by (simp add: oc aw log_to_def split: prod.splits settled.splits)
      qed
    qed
  qed
qed

lemma loginDestination_as_events:
  assumes "alive s"
  shows "loginDestination tok e s =
         vars (steps \<lparr>vars = fst (begin_replication tok s),
                      suspended = ts @ [snd (begin_replication tok s)]\<rparr>
                 (map (\<lambda>i. CreateAnswer (length ts) i (create_responses e i))
                      (completion_order e)))"
proof -
  let ?subs = "subscriptions s"
  let ?s1 = "log_to (destination_banner (length ?subs) @ sent_requests tok ?subs) s"
  show ?thesis
  proof (cases "thrown tok ?subs")
    case (Cons err errs)
    then have "begin_replication tok s = (?s1\<lparr>unhandled := unhandled ?s1 @ [err]\<rparr>, Finished)"
      by (simp add: begin_replication_def Let_def)
    moreover have "\<not> alive (?s1\<lparr>unhandled := unhandled ?s1 @ [err]\<rparr>)"
      by (simp add: alive_def)
    ultimately show ?thesis
      using Cons by (simp add: steps_dead loginDestination_def Let_def)
  next
    case Nil
    show ?thesis
    proof (cases "waiting ?subs = []")
      case True
      then have "begin_replication tok s =
                 (?s1\<lparr>trace := trace ?s1 @ [done_line], exited := Some 0\<rparr>, Finished)"
        using Nil by (simp add: begin_replication_def Let_def)
      moreover have "\<not> alive (?s1\<lparr>trace := trace ?s1 @ [done_line], exited := Some 0\<rparr>)"
        by (simp add: alive_def)
      ultimately show ?thesis
        using Nil True by (simp add: steps_dead loginDestination_def Let_def)
    next
      case False
      then have br: "begin_replication tok s = (?s1, Subscribing (waiting ?subs))"
        using Nil by (simp add: begin_replication_def Let_def)
      have "alive ?s1" using assms by (simp add: alive_def log_to_def)
      moreover have "length ts < length (ts @ [Subscribing (waiting ?subs)])" by simp
      moreover have "(ts @ [Subscribing (waiting ?subs)]) ! length ts = Subscribing (waiting ?subs)"
        by simp
      ultimately have
        "vars (steps \<lparr>vars = ?s1, suspended = ts @ [Subscribing (waiting ?subs)]\<rparr>
                 (map (\<lambda>i. CreateAnswer (length ts) i (create_responses e i))
                      (completion_order e))) =
         (case await_all (create_responses e) (waiting ?subs) (completion_order e) (trace ?s1) of
            (AllFulfilled, tr) \<Rightarrow> ?s1\<lparr>trace := tr @ [done_line], exited := Some 0\<rparr>
          | (StillWaiting, tr) \<Rightarrow> ?s1\<lparr>trace := tr\<rparr>
          | (OneRejected err, tr) \<Rightarrow> ?s1\<lparr>trace := tr, unhandled := unhandled ?s1 @ [err]\<rparr>)"
        using False by (rule await_all_as_events)
      then show ?thesis
        using Nil by (simp add: br loginDestination_def Let_def)
    qed
  qed
qed

lemma log_to_twice: "log_to ys (log_to xs s) = log_to (xs @ ys) s"
  by (simp add: log_to_def)

lemma alive_log_to [simp]: "alive (log_to xs s) = alive s"
  by (simp add: alive_def log_to_def)

text \<open>
  A callback of the destination phase, and one of the source phase, in a running process:
  the state \<open>callback\<close> gives is the state after the events of that callback alone.
\<close>

lemma callback_as_events_destination:
  assumes "alive s" and "applicationState s = login_destination"
  shows "snd (callback q e s) =
         vars (steps (boot s)
                 (Request q # TokenAnswer 0 (token_response e)
                    # map (\<lambda>i. CreateAnswer 1 i (create_responses e i)) (completion_order e)))"
proof -
  let ?tail = "map (\<lambda>i. CreateAnswer 1 i (create_responses e i)) (completion_order e)"
  show ?thesis
  proof (cases "code_rejected (code q) \<or> state_rejected (state q) (oauthState s)")
    case True
    then have "snd (callback q e s) = s" by (auto simp: callback_def)
    moreover have "snd (step (Request q) (boot s)) = boot s"
      using True assms(1) by (auto simp: step_def on_request_def boot_def)
    moreover have "snd (step (TokenAnswer 0 (token_response e)) (boot s)) = boot s"
      by (simp add: step_def task_at_def boot_def)
    moreover have "steps (boot s) ?tail = boot s"
      by (rule steps_not_subscribing) (simp add: task_at_def boot_def)
    ultimately show ?thesis by (simp add: boot_def)
  next
    case False
    then obtain c where c: "code q = Single c"
      by (cases "code q") (simp_all add: code_rejected_def)
    let ?s0 = "log_to [HttpPostToken (token_link (config s) c)] s"
    let ?p1 = "\<lparr>vars = ?s0, suspended = [Exchanging c]\<rparr>"
    have rq: "snd (step (Request q) (boot s)) = ?p1"
      using False assms(1) c by (simp add: step_def on_request_def boot_def)
    have tk: "snd (step (TokenAnswer 0 (token_response e)) ?p1)
              = snd (on_token 0 (token_response e) ?p1)"
      using assms(1) by (simp add: step_def task_at_def)
    obtain out tr where rt: "received_token (token_response e) = (out, tr)"
      by (cases "received_token (token_response e)")
    have ex: "exchangeForAccessToken (config s) c (token_response e)
              = (out, HttpPostToken (token_link (config s) c) # tr)"
      by (simp add: exchange_as_events rt)
    show ?thesis
    proof (cases "\<exists>tok. out = Returned (Some tok)")
      case nt: False
      then have ot: "snd (on_token 0 (token_response e) ?p1)
                     = \<lparr>vars = log_to tr ?s0, suspended = [Finished]\<rparr>"
        by (cases out) (auto simp: on_token_def rt split: option.splits)
      have "snd (callback q e s) = log_to (HttpPostToken (token_link (config s) c) # tr) s"
        using False c nt by (cases out) (auto simp: callback_def ex split: option.splits)
      moreover have "steps \<lparr>vars = log_to tr ?s0, suspended = [Finished]\<rparr> ?tail
                     = \<lparr>vars = log_to tr ?s0, suspended = [Finished]\<rparr>"
        by (rule steps_not_subscribing) (simp add: task_at_def)
      ultimately show ?thesis
        by (simp add: rq tk ot log_to_twice)
    next
      case True
      then obtain tok where out: "out = Returned (Some tok)" by auto
      let ?s1 = "log_to tr ?s0"
      have ot: "snd (on_token 0 (token_response e) ?p1)
                = \<lparr>vars = fst (begin_replication tok ?s1),
                   suspended = [Finished] @ [snd (begin_replication tok ?s1)]\<rparr>"
        using assms(2) by (simp add: on_token_def rt out Let_def split: prod.splits)
      have "snd (callback q e s) = loginDestination tok e ?s1"
        using False c assms(2) by (simp add: callback_def ex out Let_def log_to_twice)
      also have "\<dots> = vars (steps \<lparr>vars = fst (begin_replication tok ?s1),
                                    suspended = [Finished] @ [snd (begin_replication tok ?s1)]\<rparr>
                          (map (\<lambda>i. CreateAnswer (length [Finished :: task]) i
                                     (create_responses e i)) (completion_order e)))"
        using assms(1) by (intro loginDestination_as_events) simp
      finally show ?thesis
        by (simp add: rq tk ot)
    qed
  qed
qed

lemma callback_as_events_source:
  assumes "alive s" and "applicationState s = login_source"
  shows "snd (callback q e s) =
         vars (steps (boot s)
                 [Request q, TokenAnswer 0 (token_response e),
                  EnumerationEnds 1 (page_responses e),
                  PromptAnswer 1 (confirm_destination e) (fresh_uuid e)])"
proof (cases "code_rejected (code q) \<or> state_rejected (state q) (oauthState s)")
  case True
  then have "snd (callback q e s) = s" by (auto simp: callback_def)
  moreover have "snd (step (Request q) (boot s)) = boot s"
    using True assms(1) by (auto simp: step_def on_request_def boot_def)
  moreover have "steps (boot s) [TokenAnswer 0 (token_response e),
                                 EnumerationEnds 1 (page_responses e),
                                 PromptAnswer 1 (confirm_destination e) (fresh_uuid e)] = boot s"
    by (simp add: step_def task_at_def boot_def)
  ultimately show ?thesis by (simp add: boot_def del: steps.simps(2) add: steps.simps(2)[of _ "Request q"])
next
  case False
  then obtain c where c: "code q = Single c"
    by (cases "code q") (simp_all add: code_rejected_def)
  let ?s0 = "log_to [HttpPostToken (token_link (config s) c)] s"
  let ?p1 = "\<lparr>vars = ?s0, suspended = [Exchanging c]\<rparr>"
  have rq: "snd (step (Request q) (boot s)) = ?p1"
    using False assms(1) c by (simp add: step_def on_request_def boot_def)
  have tk: "snd (step (TokenAnswer 0 (token_response e)) ?p1)
            = snd (on_token 0 (token_response e) ?p1)"
    using assms(1) by (simp add: step_def task_at_def)
  obtain out tr where rt: "received_token (token_response e) = (out, tr)"
    by (cases "received_token (token_response e)")
  have ex: "exchangeForAccessToken (config s) c (token_response e)
            = (out, HttpPostToken (token_link (config s) c) # tr)"
    by (simp add: exchange_as_events rt)
  show ?thesis
  proof (cases "\<exists>tok. out = Returned (Some tok)")
    case nt: False
    then have ot: "snd (on_token 0 (token_response e) ?p1)
                   = \<lparr>vars = log_to tr ?s0, suspended = [Finished]\<rparr>"
      by (cases out) (auto simp: on_token_def rt split: option.splits)
    have "snd (callback q e s) = log_to (HttpPostToken (token_link (config s) c) # tr) s"
      using False c nt by (cases out) (auto simp: callback_def ex split: option.splits)
    moreover have "steps \<lparr>vars = log_to tr ?s0, suspended = [Finished]\<rparr>
                     [EnumerationEnds 1 (page_responses e),
                      PromptAnswer 1 (confirm_destination e) (fresh_uuid e)]
                   = \<lparr>vars = log_to tr ?s0, suspended = [Finished]\<rparr>"
      by (simp add: step_def task_at_def)
    moreover have "steps (boot s) [Request q, TokenAnswer 0 (token_response e),
                     EnumerationEnds 1 (page_responses e),
                     PromptAnswer 1 (confirm_destination e) (fresh_uuid e)]
                   = steps \<lparr>vars = log_to tr ?s0, suspended = [Finished]\<rparr>
                       [EnumerationEnds 1 (page_responses e),
                        PromptAnswer 1 (confirm_destination e) (fresh_uuid e)]"
      by (simp only: steps.simps rq tk ot)
    ultimately show ?thesis
      by (simp only: log_to_twice process.simps append.simps)
  next
    case True
    then obtain tok where out: "out = Returned (Some tok)" by auto
    let ?s1 = "log_to tr ?s0"
    let ?p2 = "\<lparr>vars = log_to source_banner ?s1, suspended = [Finished, Collecting tok]\<rparr>"
    have ot: "snd (on_token 0 (token_response e) ?p1) = ?p2"
      using assms(2) by (simp add: on_token_def rt out Let_def)
    have cb: "snd (callback q e s) = loginSource tok e ?s1"
      using False c assms(2) by (simp add: callback_def ex out Let_def log_to_twice)
    have al: "alive (log_to source_banner ?s1)" using assms(1) by simp
    have en: "snd (step (EnumerationEnds 1 (page_responses e)) ?p2)
              = on_enumeration 1 tok (page_responses e) ?p2"
      using al by (simp add: step_def task_at_def)
    have "loginSource tok e ?s1 =
          vars (steps ?p2 [EnumerationEnds 1 (page_responses e),
                           PromptAnswer 1 (confirm_destination e) (fresh_uuid e)])"
    proof (cases "getAllSubscriptions tok (page_responses e)")
      case None
      then have "on_enumeration 1 tok (page_responses e) ?p2 = ?p2"
        by (simp add: on_enumeration_def)
      moreover have "loginSource tok e ?s1 = log_to source_banner ?s1"
        using None by (simp add: loginSource_def)
      moreover have "snd (step (PromptAnswer 1 (confirm_destination e) (fresh_uuid e)) ?p2) = ?p2"
        by (simp add: step_def task_at_def)
      ultimately show ?thesis
        by (simp only: steps.simps en process.simps)
    next
      case (Some res)
      obtain result tr' where res: "res = (result, tr')" by (cases res)
      show ?thesis
      proof (cases result)
        case (Threw err)
        let ?s3 = "(log_to tr' (log_to source_banner ?s1))
                     \<lparr>unhandled := unhandled (log_to source_banner ?s1) @ [err]\<rparr>"
        have "on_enumeration 1 tok (page_responses e) ?p2
              = \<lparr>vars = ?s3, suspended = [Finished, Finished]\<rparr>"
          using Some res Threw by (simp add: on_enumeration_def)
        moreover have "snd (step (PromptAnswer 1 (confirm_destination e) (fresh_uuid e))
                                 \<lparr>vars = ?s3, suspended = [Finished, Finished]\<rparr>)
                       = \<lparr>vars = ?s3, suspended = [Finished, Finished]\<rparr>"
          by (simp add: step_def alive_def)
        moreover have "loginSource tok e ?s1 = ?s3"
          using Some res Threw by (simp add: loginSource_def)
        ultimately show ?thesis
          by (simp only: steps.simps en process.simps)
      next
        case (Returned subs)
        let ?s2 = "(log_to tr' (log_to source_banner ?s1))\<lparr>subscriptions := subs\<rparr>"
        show ?thesis
        proof (cases "subs = []")
          case True
          let ?s3 = "(log_to [ConsoleLog no_subscriptions_message] ?s2)\<lparr>exited := Some 1\<rparr>"
          have "on_enumeration 1 tok (page_responses e) ?p2
                = \<lparr>vars = ?s3, suspended = [Finished, Finished]\<rparr>"
            using Some res Returned True by (simp add: on_enumeration_def)
          moreover have "snd (step (PromptAnswer 1 (confirm_destination e) (fresh_uuid e))
                                   \<lparr>vars = ?s3, suspended = [Finished, Finished]\<rparr>)
                         = \<lparr>vars = ?s3, suspended = [Finished, Finished]\<rparr>"
            by (simp add: step_def alive_def)
          moreover have "loginSource tok e ?s1 = ?s3"
            using Some res Returned True by (simp add: loginSource_def)
          ultimately show ?thesis
            by (simp only: steps.simps en process.simps)
        next
          case False
          let ?s3 = "log_to [ConsoleLog (found_message (length subs)),
                             Prompt (destination_prompt (length subs))] ?s2"
          have oe: "on_enumeration 1 tok (page_responses e) ?p2
                = \<lparr>vars = ?s3, suspended = [Finished, Confirming]\<rparr>"
            using Some res Returned False by (simp add: on_enumeration_def)
          have "alive ?s3" using assms(1) by (simp add: alive_def log_to_def)
          then have pr: "snd (step (PromptAnswer 1 (confirm_destination e) (fresh_uuid e))
                               \<lparr>vars = ?s3, suspended = [Finished, Confirming]\<rparr>)
                = on_prompt 1 (confirm_destination e) (fresh_uuid e)
                    \<lparr>vars = ?s3, suspended = [Finished, Confirming]\<rparr>"
            by (simp add: step_def task_at_def)
          have "loginSource tok e ?s1 =
                promptDestinationLogin (confirm_destination e) (fresh_uuid e)
                  (log_to [ConsoleLog (found_message (length subs))] ?s2)"
            using Some res Returned False by (simp add: loginSource_def)
          also have "\<dots> = vars (on_prompt 1 (confirm_destination e) (fresh_uuid e)
                                   \<lparr>vars = ?s3, suspended = [Finished, Confirming]\<rparr>)"
            by (simp add: promptDestinationLogin_def on_prompt_def Let_def log_to_def)
          finally show ?thesis
            by (simp only: steps.simps en oe pr)
        qed
      qed
    qed
    then show ?thesis
      by (simp add: rq tk ot cb)
  qed
qed

end
